theory Spec2Isabelle
  imports Main "HOL-Library.Word"
begin

unbundle bit_operations_syntax

section \<open>Bytes, slices and the little-endian codec\<close>

type_synonym byte = "8 word"
type_synonym bytes = "byte list"

text \<open>Go's \<^verbatim>\<open>internal.StringToBytes\<close>: the bytes of a string.\<close>

definition StringToBytes :: "string \<Rightarrow> bytes" where
  "StringToBytes s = map (\<lambda>c. word_of_nat (of_char c)) s"

text \<open>
  Every failure of the code is a value: the engine's not-found signal, any other engine
  failure, an error made by \<^verbatim>\<open>errors.New\<close>, and a run-time panic (a slice or
  index out of range).
\<close>

datatype error = ErrNotFound | EngineError string | ErrorsNew string | RuntimePanic

text \<open>
  \<^verbatim>\<open>littleEndian.PutUint32(data[pos:], v)\<close> writes four bytes in place, least
  significant first, and panics when fewer than four bytes are left.
\<close>

definition le32 :: "32 word \<Rightarrow> bytes" where
  "le32 v = [ucast v, ucast (drop_bit 8 v), ucast (drop_bit 16 v), ucast (drop_bit 24 v)]"

definition PutUint32 :: "bytes \<Rightarrow> nat \<Rightarrow> 32 word \<Rightarrow> bytes option" where
  "PutUint32 data pos v =
     (if length data < pos + 4 then None
      else Some (take pos data @ le32 v @ drop (pos + 4) data))"

text \<open>
  \<^verbatim>\<open>littleEndian.Uint32(b)\<close>: the value of the first four bytes of \<open>b\<close>.
\<close>

definition Uint32 :: "bytes \<Rightarrow> 32 word" where
  "Uint32 b = foldr (\<lambda>x acc. push_bit 8 acc OR ucast x) (take 4 b) 0"

text \<open>
  Go's \<^verbatim>\<open>copy(dst[pos:], src)\<close>: copies as many bytes as fit and returns the
  updated destination with the number of bytes copied.
\<close>

definition copy :: "bytes \<Rightarrow> nat \<Rightarrow> bytes \<Rightarrow> bytes \<times> nat" where
  "copy dst pos src =
     (let n = min (length dst - pos) (length src)
      in (take pos dst @ take n src @ drop (pos + n) dst, n))"

section \<open>SHA-1 (\<^verbatim>\<open>crypto/sha1\<close>)\<close>

definition sha1_Size :: nat where
  "sha1_Size = 20"

definition be32 :: "32 word \<Rightarrow> bytes" where
  "be32 w = [ucast (drop_bit 24 w), ucast (drop_bit 16 w), ucast (drop_bit 8 w), ucast w]"

definition be32_word :: "bytes \<Rightarrow> 32 word" where
  "be32_word bs = foldl (\<lambda>a b. push_bit 8 a OR ucast b) 0 bs"

definition be64 :: "64 word \<Rightarrow> bytes" where
  "be64 w = map (\<lambda>i. ucast (drop_bit (8 * (7 - i)) w)) [0..<8]"

definition sha1_pad :: "bytes \<Rightarrow> bytes" where
  "sha1_pad m = m @ [0x80] @ replicate ((119 - length m mod 64) mod 64) 0
                  @ be64 (of_nat (8 * length m))"

fun blocks_of :: "nat \<Rightarrow> nat \<Rightarrow> 'a list \<Rightarrow> 'a list list" where
  "blocks_of 0 k xs = []"
| "blocks_of (Suc n) k xs = take k xs # blocks_of n k (drop k xs)"

definition sha1_f :: "nat \<Rightarrow> 32 word \<Rightarrow> 32 word \<Rightarrow> 32 word \<Rightarrow> 32 word" where
  "sha1_f t b c d =
     (if t < 20 then (b AND c) OR (NOT b AND d)
      else if t < 40 then b XOR c XOR d
      else if t < 60 then (b AND c) OR (b AND d) OR (c AND d)
      else b XOR c XOR d)"

definition sha1_k :: "nat \<Rightarrow> 32 word" where
  "sha1_k t = (if t < 20 then 0x5A827999 else if t < 40 then 0x6ED9EBA1
               else if t < 60 then 0x8F1BBCDC else 0xCA62C1D6)"

primrec sha1_schedule :: "nat \<Rightarrow> 32 word list \<Rightarrow> 32 word list" where
  "sha1_schedule 0 ws = ws"
| "sha1_schedule (Suc n) ws =
     sha1_schedule n (ws @ [word_rotl 1 (ws ! (length ws - 3) XOR ws ! (length ws - 8)
                              XOR ws ! (length ws - 14) XOR ws ! (length ws - 16))])"

type_synonym sha1_state = "32 word \<times> 32 word \<times> 32 word \<times> 32 word \<times> 32 word"

definition sha1_round :: "32 word list \<Rightarrow> nat \<Rightarrow> sha1_state \<Rightarrow> sha1_state" where
  "sha1_round ws t s = (case s of (a, b, c, d, e) \<Rightarrow>
     (word_rotl 5 a + sha1_f t b c d + e + sha1_k t + ws ! t, a, word_rotl 30 b, c, d))"

definition sha1_block :: "sha1_state \<Rightarrow> bytes \<Rightarrow> sha1_state" where
  "sha1_block h blk =
     (let ws = sha1_schedule 64 (map be32_word (blocks_of 16 4 blk)) in
      case (h, fold (sha1_round ws) [0..<80] h) of
        ((h0, h1, h2, h3, h4), (a, b, c, d, e)) \<Rightarrow> (h0 + a, h1 + b, h2 + c, h3 + d, h4 + e))"

text \<open>\<^verbatim>\<open>sha1.Sum(data)\<close>: the 20-byte digest of \<open>data\<close>.\<close>

definition sha1_Sum :: "bytes \<Rightarrow> bytes" where
  "sha1_Sum data =
     (let p = sha1_pad data in
      case foldl sha1_block (0x67452301, 0xEFCDAB89, 0x98BADCFE, 0x10325476, 0xC3D2E1F0)
             (blocks_of (length p div 64) 64 p) of
        (h0, h1, h2, h3, h4) \<Rightarrow> be32 h0 @ be32 h1 @ be32 h2 @ be32 h3 @ be32 h4)"

section \<open>The key-value engine (external collaborator)\<close>

text \<open>
  The engine is goleveldb: \<^verbatim>\<open>Get\<close>, \<^verbatim>\<open>Put\<close> and the atomic batched
  \<^verbatim>\<open>Write\<close>. A database is its key-value map together with the outcomes the
  engine will report: \<open>script\<close> holds, for each coming call, either \<open>None\<close> (the call
  works) or the error it fails with; an exhausted script means every further call works.
  A failed call leaves the map as it was. \<open>calls\<close> records every call issued, in order.
\<close>

type_synonym Batch = "(bytes \<times> bytes) list"

datatype call = CallGet bytes | CallPut bytes bytes | CallWrite Batch

record db =
  kv :: "bytes \<rightharpoonup> bytes"
  script :: "error option list"
  calls :: "call list"

definition outcome :: "db \<Rightarrow> error option" where
  "outcome d = (case script d of [] \<Rightarrow> None | x # xs \<Rightarrow> x)"

definition called :: "db \<Rightarrow> call \<Rightarrow> db" where
  "called d c = d\<lparr>script := tl (script d), calls := calls d @ [c]\<rparr>"

definition db_Get :: "db \<Rightarrow> bytes \<Rightarrow> (bytes \<times> error option) \<times> db" where
  "db_Get d key =
     (case outcome d of
        Some e \<Rightarrow> (([], Some e), called d (CallGet key))
      | None \<Rightarrow>
          (case kv d key of
             None \<Rightarrow> (([], Some ErrNotFound), called d (CallGet key))
           | Some v \<Rightarrow> ((v, None), called d (CallGet key))))"

definition db_Put :: "db \<Rightarrow> bytes \<Rightarrow> bytes \<Rightarrow> error option \<times> db" where
  "db_Put d key val =
     (case outcome d of
        Some e \<Rightarrow> (Some e, called d (CallPut key val))
      | None \<Rightarrow> (None, (called d (CallPut key val))\<lparr>kv := (kv d)(key \<mapsto> val)\<rparr>))"

definition apply_batch :: "Batch \<Rightarrow> (bytes \<rightharpoonup> bytes) \<Rightarrow> (bytes \<rightharpoonup> bytes)" where
  "apply_batch b m = fold (\<lambda>(k, v) m. m(k \<mapsto> v)) b m"

definition db_Write :: "db \<Rightarrow> Batch \<Rightarrow> error option \<times> db" where
  "db_Write d b =
     (case outcome d of
        Some e \<Rightarrow> (Some e, called d (CallWrite b))
      | None \<Rightarrow> (None, (called d (CallWrite b))\<lparr>kv := apply_batch b (kv d)\<rparr>))"

text \<open>The driver holds the two key spaces: chunks by content hash, files by identifier.\<close>

record leveldbDriver =
  drv_chunks :: db
  drv_files :: db

section \<open>The File Index Record (shared by both writers)\<close>

text \<open>
  The loop of \<^verbatim>\<open>Close\<close> that fills the record, entry by entry, at position
  \<open>pos\<close> of the buffer: the length written is \<^verbatim>\<open>uint32(len(chunk))\<close>, where
  \<open>chunk\<close> ranges over the session's chunk list.
\<close>

fun put_chunks :: "bytes \<Rightarrow> nat \<Rightarrow> bytes list \<Rightarrow> bytes option" where
  "put_chunks data pos [] = Some data"
| "put_chunks data pos (chunk # rest) =
     (case PutUint32 data pos (of_nat (length chunk)) of
        None \<Rightarrow> None
      | Some data1 \<Rightarrow>
          (case copy data1 (pos + 4) chunk of
             (data2, n) \<Rightarrow> put_chunks data2 (pos + 4 + n) rest))"

definition chunk_record :: "bytes list \<Rightarrow> bytes option" where
  "chunk_record cs =
     (let total = length cs * (sha1_Size + 4) + 4;
          data = replicate total 0
      in case PutUint32 data 0 (of_nat (length cs)) of
           None \<Rightarrow> None
         | Some data1 \<Rightarrow> put_chunks data1 4 cs)"

text \<open>
  The inline record: a buffer of \<open>4 + n\<close> bytes, the count 0, and the bytes copied
  from \<open>src\<close> after it.
\<close>

definition inline_record :: "nat \<Rightarrow> bytes \<Rightarrow> bytes option" where
  "inline_record n src =
     (let total = 4 + n;
          data = replicate total 0
      in case PutUint32 data 0 0 of
           None \<Rightarrow> None
         | Some data1 \<Rightarrow> Some (fst (copy data1 4 src)))"

section \<open>The batching File Writer (\<^verbatim>\<open>blobstore/driver/leveldb/wfile.go\<close>)\<close>

definition chunkSize :: nat where
  "chunkSize = 256 * 1024"

definition maxBatchSize :: nat where
  "maxBatchSize = 4 * 2 ^ 20"

text \<open>
  The write session. The driver pointer \<^verbatim>\<open>drv\<close> of the struct is the one driver
  passed to every operation; \<open>pending\<close> is the state of the embedded
  \<^verbatim>\<open>chunk.Chunker\<close>: the bytes accumulated that do not yet form a chunk.
\<close>

record wfile =
  file_id :: string
  chunks :: "bytes list"
  batch :: Batch
  batchSize :: nat
  pending :: bytes

definition flushBatch :: "leveldbDriver \<Rightarrow> wfile \<Rightarrow> error option \<times> leveldbDriver \<times> wfile" where
  "flushBatch drv f =
     (case db_Write (drv_chunks drv) (batch f) of
        (err, cdb) \<Rightarrow> (err, drv\<lparr>drv_chunks := cdb\<rparr>, f\<lparr>batchSize := 0, batch := []\<rparr>))"

definition WriteChunk ::
  "leveldbDriver \<Rightarrow> wfile \<Rightarrow> bytes \<Rightarrow> error option \<times> leveldbDriver \<times> wfile" where
  "WriteChunk drv f data =
     (let hash = sha1_Sum data;
          f1 = f\<lparr>chunks := chunks f @ [hash]\<rparr>
      in case db_Get (drv_chunks drv) hash of
           ((ch, err), cdb) \<Rightarrow>
             (let drv1 = drv\<lparr>drv_chunks := cdb\<rparr> in
              if err = None then
                (if length ch \<noteq> length data then (Some (ErrorsNew ''hash collision''), drv1, f1)
                 else (None, drv1, f1))
              else
                (let f2 = f1\<lparr>batch := batch f1 @ [(hash, data)],
                              batchSize := batchSize f1 + length data\<rparr>
                 in if batchSize f2 \<ge> maxBatchSize then flushBatch drv1 f2
                    else (None, drv1, f2))))"

subsection \<open>The chunk boundary source\<close>

text \<open>
  Modelled from the spec: the fixed-size Chunk Boundary Source
  (\<^verbatim>\<open>gnd.la/blobstore/chunk/fixed\<close>, whose code is not among the sources).
  \<open>feed\<close> appends bytes to the accumulation and, whenever the accumulation reaches the
  chunk size, emits a complete chunk to the writer's \<^verbatim>\<open>WriteChunk\<close> and resets;
  an error of the callback aborts the write. \<open>remaining\<close> is the accumulation;
  \<open>reset\<close> empties it; \<open>flush\<close> runs a non-empty remainder through
  \<^verbatim>\<open>WriteChunk\<close> as one final chunk, as the close of the File Writer requires.
\<close>

definition Chunker_Remaining :: "wfile \<Rightarrow> bytes" where
  "Chunker_Remaining f = pending f"

definition Chunker_Reset :: "wfile \<Rightarrow> wfile" where
  "Chunker_Reset f = f\<lparr>pending := []\<rparr>"

definition Chunker_Flush ::
  "leveldbDriver \<Rightarrow> wfile \<Rightarrow> error option \<times> leveldbDriver \<times> wfile" where
  "Chunker_Flush drv f =
     (if length (pending f) > 0 then WriteChunk drv (f\<lparr>pending := []\<rparr>) (pending f)
      else (None, drv, f))"

function Chunker_Write ::
  "leveldbDriver \<Rightarrow> wfile \<Rightarrow> bytes \<Rightarrow> error option \<times> leveldbDriver \<times> wfile" where
  "Chunker_Write drv f p =
     (if length (pending f) + length p < chunkSize then (None, drv, f\<lparr>pending := pending f @ p\<rparr>)
      else
        (let k = chunkSize - length (pending f) in
         case WriteChunk drv (f\<lparr>pending := []\<rparr>) (pending f @ take k p) of
           (Some err, drv1, f1) \<Rightarrow> (Some err, drv1, f1)
         | (None, drv1, f1) \<Rightarrow> Chunker_Write drv1 f1 (drop k p)))"
  by pat_completeness auto

subsection \<open>The writer pool\<close>

text \<open>
  Modelled from the spec: the Writer Pool (\<^verbatim>\<open>gnd.la/internal/pool\<close>, whose code is
  not among the sources): \<open>release\<close> keeps a session for reuse, \<open>acquire\<close> hands one
  out if one is available.
\<close>

definition pool_Put :: "wfile list \<Rightarrow> wfile \<Rightarrow> wfile list" where
  "pool_Put pool f = f # pool"

definition pool_Get :: "wfile list \<Rightarrow> wfile option \<times> wfile list" where
  "pool_Get pool = (case pool of [] \<Rightarrow> (None, []) | x # rest \<Rightarrow> (Some x, rest))"

subsection \<open>Close and newWFile\<close>

definition put_record ::
  "leveldbDriver \<Rightarrow> string \<Rightarrow> bytes \<Rightarrow> error option \<times> leveldbDriver" where
  "put_record drv ident data =
     (case db_Put (drv_files drv) (StringToBytes ident) data of
        (err, fdb) \<Rightarrow> (err, drv\<lparr>drv_files := fdb\<rparr>))"

definition Close ::
  "leveldbDriver \<Rightarrow> wfile list \<Rightarrow> wfile \<Rightarrow> error option \<times> leveldbDriver \<times> wfile list \<times> wfile" where
  "Close drv pool f =
     (let rem = Chunker_Remaining f in
      if length rem > 0 \<and> length (chunks f) = 0 then
        (case inline_record (length rem) rem of
           None \<Rightarrow> (Some RuntimePanic, drv, pool, f)
         | Some data \<Rightarrow>
             (case put_record drv (file_id f) data of
                (err, drv1) \<Rightarrow> (err, drv1, pool_Put pool f, f)))
      else
        (case (if length rem > 0 then Chunker_Flush drv f else (None, drv, f)) of
           (Some err, drv1, f1) \<Rightarrow> (Some err, drv1, pool, f1)
         | (None, drv1, f1) \<Rightarrow>
             (case flushBatch drv1 f1 of
                (Some err, drv2, f2) \<Rightarrow> (Some err, drv2, pool, f2)
              | (None, drv2, f2) \<Rightarrow>
                  (case chunk_record (chunks f2) of
                     None \<Rightarrow> (Some RuntimePanic, drv2, pool, f2)
                   | Some data \<Rightarrow>
                       (case put_record drv2 (file_id f2) data of
                          (err, drv3) \<Rightarrow> (err, drv3, pool_Put pool f2, f2))))))"

definition newWFile :: "wfile list \<Rightarrow> string \<Rightarrow> wfile list \<times> wfile" where
  "newWFile pool ident =
     (case pool_Get pool of
        (Some w, pool1) \<Rightarrow> (pool1, Chunker_Reset (w\<lparr>file_id := ident, chunks := []\<rparr>))
      | (None, pool1) \<Rightarrow>
          (pool1, \<lparr>file_id = ident, chunks = [], batch = [], batchSize = 0, pending = []\<rparr>))"

section \<open>The inline fixed-size File Writer (the earlier \<^verbatim>\<open>wfile.go\<close>)\<close>

text \<open>
  This writer keeps its own buffer of \<open>chunkSize\<close> bytes and the offset of the next
  free byte; it has no batch and no pool, and puts every new chunk at once.
\<close>

record wfile' =
  file_id' :: string
  buf :: bytes
  chunks' :: "bytes list"
  offset :: nat

definition writeChunk :: "leveldbDriver \<Rightarrow> wfile' \<Rightarrow> error option \<times> leveldbDriver \<times> wfile'" where
  "writeChunk drv f =
     (if offset f > length (buf f) then (Some RuntimePanic, drv, f)
      else
        (let data = take (offset f) (buf f);
             hash = sha1_Sum data;
             f1 = f\<lparr>offset := 0\<rparr>
         in case db_Get (drv_chunks drv) hash of
              ((ch, err), cdb) \<Rightarrow>
                (let drv1 = drv\<lparr>drv_chunks := cdb\<rparr> in
                 if err = None then (None, drv1, f1\<lparr>chunks' := chunks' f1 @ [hash]\<rparr>)
                 else
                   (case db_Put (drv_chunks drv1) hash data of
                      (Some err2, cdb2) \<Rightarrow> (Some err2, drv1\<lparr>drv_chunks := cdb2\<rparr>, f1)
                    | (None, cdb2) \<Rightarrow>
                        (None, drv1\<lparr>drv_chunks := cdb2\<rparr>,
                         f1\<lparr>chunks' := chunks' f1 @ [hash]\<rparr>)))))"

text \<open>
  The loop of \<^verbatim>\<open>Write\<close>. It does not return when no byte can be copied and the
  offset is not the chunk size (a buffer that is not \<open>chunkSize\<close> long), so its result
  is an option: \<open>None\<close> is the loop that never ends.
\<close>

partial_function (option) Write_loop ::
  "leveldbDriver \<Rightarrow> wfile' \<Rightarrow> bytes \<Rightarrow> nat \<Rightarrow> ((nat \<times> error option) \<times> leveldbDriver \<times> wfile') option"
  where
  "Write_loop drv f p n =
     (if length p > 0 then
        (if offset f > length (buf f) then Some ((n, Some RuntimePanic), drv, f)
         else
           (case copy (buf f) (offset f) p of
              (buf1, c) \<Rightarrow>
                (let f1 = f\<lparr>buf := buf1, offset := offset f + c\<rparr>;
                     n1 = n + c
                 in if offset f1 = chunkSize then
                      (case writeChunk drv f1 of
                         (Some err, drv2, f2) \<Rightarrow> Some ((n1, Some err), drv2, f2)
                       | (None, drv2, f2) \<Rightarrow> Write_loop drv2 f2 (drop c p) n1)
                    else Write_loop drv f1 (drop c p) n1)))
      else Some ((n, None), drv, f))"

definition Write ::
  "leveldbDriver \<Rightarrow> wfile' \<Rightarrow> bytes \<Rightarrow> ((nat \<times> error option) \<times> leveldbDriver \<times> wfile') option" where
  "Write drv f p = Write_loop drv f p 0"

definition Close' :: "leveldbDriver \<Rightarrow> wfile' \<Rightarrow> error option \<times> leveldbDriver \<times> wfile'" where
  "Close' drv f =
     (if offset f > 0 \<and> length (chunks' f) = 0 then
        (case inline_record (offset f) (buf f) of
           None \<Rightarrow> (Some RuntimePanic, drv, f)
         | Some data \<Rightarrow>
             (case put_record drv (file_id' f) data of (err, drv1) \<Rightarrow> (err, drv1, f)))
      else
        (case (if offset f > 0 then writeChunk drv f else (None, drv, f)) of
           (Some err, drv1, f1) \<Rightarrow> (Some err, drv1, f1)
         | (None, drv1, f1) \<Rightarrow>
             (case chunk_record (chunks' f1) of
                None \<Rightarrow> (Some RuntimePanic, drv1, f1)
              | Some data \<Rightarrow>
                  (case put_record drv1 (file_id' f1) data of (err, drv2) \<Rightarrow> (err, drv2, f1)))))"

definition newWFile' :: "string \<Rightarrow> wfile'" where
  "newWFile' ident = \<lparr>file_id' = ident, buf = replicate chunkSize 0, chunks' = [], offset = 0\<rparr>"

section \<open>Concrete states\<close>

definition empty_db :: db where
  "empty_db = \<lparr>kv = Map.empty, script = [], calls = []\<rparr>"

definition failing_db :: "error \<Rightarrow> db" where
  "failing_db e = \<lparr>kv = Map.empty, script = [Some e], calls = []\<rparr>"

definition seeded_db :: "bytes \<Rightarrow> bytes \<Rightarrow> db" where
  "seeded_db k v = \<lparr>kv = [k \<mapsto> v], script = [], calls = []\<rparr>"

definition empty_drv :: leveldbDriver where
  "empty_drv = \<lparr>drv_chunks = empty_db, drv_files = empty_db\<rparr>"

definition zero_chunk :: bytes where
  "zero_chunk = replicate chunkSize 0"

definition fresh_wfile :: "string \<Rightarrow> wfile" where
  "fresh_wfile ident = \<lparr>file_id = ident, chunks = [], batch = [], batchSize = 0, pending = []\<rparr>"

section \<open>Streams of chunks\<close>

text \<open>
  The complete chunks of a byte stream, in order, and the bytes left over after them.
\<close>

definition complete_chunks :: "bytes \<Rightarrow> bytes list" where
  "complete_chunks s = blocks_of (length s div chunkSize) chunkSize s"

definition remainder :: "bytes \<Rightarrow> bytes" where
  "remainder s = drop (length s - length s mod chunkSize) s"

text \<open>\<^verbatim>\<open>WriteChunk\<close> on each chunk of a list in turn, up to the first error.\<close>

fun WriteChunks ::
  "leveldbDriver \<Rightarrow> wfile \<Rightarrow> bytes list \<Rightarrow> error option \<times> leveldbDriver \<times> wfile" where
  "WriteChunks drv f [] = (None, drv, f)"
| "WriteChunks drv f (d # ds) =
     (case WriteChunk drv f d of
        (Some e, drv1, f1) \<Rightarrow> (Some e, drv1, f1)
      | (None, drv1, f1) \<Rightarrow> WriteChunks drv1 f1 ds)"

text \<open>
  What \<^verbatim>\<open>writeChunk\<close> of the inline writer asks of the engine for the chunk
  \<open>data\<close>, and the same on each chunk of a list in turn, up to the first error, with
  the chunk list it builds.
\<close>

definition put_chunk :: "leveldbDriver \<Rightarrow> bytes \<Rightarrow> error option \<times> leveldbDriver" where
  "put_chunk drv data =
     (case db_Get (drv_chunks drv) (sha1_Sum data) of
        ((ch, err), cdb) \<Rightarrow>
          (if err = None then (None, drv\<lparr>drv_chunks := cdb\<rparr>)
           else
             (case db_Put cdb (sha1_Sum data) data of
                (perr, cdb2) \<Rightarrow> (perr, drv\<lparr>drv_chunks := cdb2\<rparr>))))"

fun writeChunks ::
  "leveldbDriver \<Rightarrow> bytes list \<Rightarrow> bytes list \<Rightarrow> error option \<times> leveldbDriver \<times> bytes list" where
  "writeChunks drv cl [] = (None, drv, cl)"
| "writeChunks drv cl (d # ds) =
     (case put_chunk drv d of
        (Some e, drv1) \<Rightarrow> (Some e, drv1, cl)
      | (None, drv1) \<Rightarrow> writeChunks drv1 (cl @ [sha1_Sum d]) ds)"

text \<open>The bytes the inline writer holds that do not yet form a chunk, and its well-formed states.\<close>

definition pend :: "wfile' \<Rightarrow> bytes" where
  "pend f = take (offset f) (buf f)"

definition wf' :: "wfile' \<Rightarrow> bool" where
  "wf' f \<longleftrightarrow> length (buf f) = chunkSize \<and> offset f < chunkSize"

section \<open>Write sessions\<close>

text \<open>
  A caller's sequence of \<^verbatim>\<open>Write\<close> calls, given up at the first error, and a whole
  session: a new writer, the writes, and the close that follows them in any case (a
  deferred \<^verbatim>\<open>Close\<close>). A session returns the error of the writes, the error of the
  close and the state it leaves.
\<close>

fun Writes ::
  "leveldbDriver \<Rightarrow> wfile \<Rightarrow> bytes list \<Rightarrow> error option \<times> leveldbDriver \<times> wfile" where
  "Writes drv f [] = (None, drv, f)"
| "Writes drv f (p # ps) =
     (case Chunker_Write drv f p of
        (Some e, drv1, f1) \<Rightarrow> (Some e, drv1, f1)
      | (None, drv1, f1) \<Rightarrow> Writes drv1 f1 ps)"

definition session ::
  "leveldbDriver \<Rightarrow> wfile list \<Rightarrow> string \<Rightarrow> bytes list
     \<Rightarrow> error option \<times> error option \<times> leveldbDriver \<times> wfile list" where
  "session drv pool ident ps =
     (case newWFile pool ident of
        (pool1, f) \<Rightarrow>
          (case Writes drv f ps of
             (we, drv1, f1) \<Rightarrow>
               (case Close drv1 pool1 f1 of
                  (ce, drv2, pool2, f2) \<Rightarrow> (we, ce, drv2, pool2))))"

fun Writes' ::
  "leveldbDriver \<Rightarrow> wfile' \<Rightarrow> bytes list \<Rightarrow> (error option \<times> leveldbDriver \<times> wfile') option" where
  "Writes' drv f [] = Some (None, drv, f)"
| "Writes' drv f (p # ps) =
     (case Write drv f p of
        None \<Rightarrow> None
      | Some ((n, Some e), drv1, f1) \<Rightarrow> Some (Some e, drv1, f1)
      | Some ((n, None), drv1, f1) \<Rightarrow> Writes' drv1 f1 ps)"

definition session' ::
  "leveldbDriver \<Rightarrow> string \<Rightarrow> bytes list \<Rightarrow> (error option \<times> error option \<times> leveldbDriver) option" where
  "session' drv ident ps =
     (case Writes' drv (newWFile' ident) ps of
        None \<Rightarrow> None
      | Some (we, drv1, f1) \<Rightarrow>
          (case Close' drv1 f1 of (ce, drv2, f2) \<Rightarrow> Some (we, ce, drv2)))"

text \<open>The calls a database has received since an earlier state of it.\<close>

definition new_calls :: "db \<Rightarrow> db \<Rightarrow> call list" where
  "new_calls d0 d1 = drop (length (calls d0)) (calls d1)"

text \<open>
  The whole of a session of the inline writer as a function of the stream written: the
  complete chunks in turn, then the close on the chunk list and the bytes left.
\<close>

definition close' ::
  "leveldbDriver \<Rightarrow> string \<Rightarrow> bytes list \<Rightarrow> bytes \<Rightarrow> error option \<times> leveldbDriver" where
  "close' drv ident cl pnd =
     (if pnd \<noteq> [] \<and> cl = [] then
        (case inline_record (length pnd) pnd of
           None \<Rightarrow> (Some RuntimePanic, drv)
         | Some data \<Rightarrow> put_record drv ident data)
      else
        (case (if pnd \<noteq> [] then writeChunks drv cl [pnd] else (None, drv, cl)) of
           (Some e, drv1, cl1) \<Rightarrow> (Some e, drv1)
         | (None, drv1, cl1) \<Rightarrow>
             (case chunk_record cl1 of
                None \<Rightarrow> (Some RuntimePanic, drv1)
              | Some data \<Rightarrow> put_record drv1 ident data)))"

definition plan' ::
  "leveldbDriver \<Rightarrow> string \<Rightarrow> bytes \<Rightarrow> error option \<times> error option \<times> leveldbDriver" where
  "plan' drv ident B =
     (case writeChunks drv [] (complete_chunks B) of
        (we, drv1, cl) \<Rightarrow>
          (case close' drv1 ident cl (if we = None then remainder B else []) of
             (ce, drv2) \<Rightarrow> (we, ce, drv2)))"

section \<open>Reading a file back\<close>

text \<open>
  Modelled from the spec: the decoding of a File Index Record and the reconstruction of
  the file (the reader's code is not among the sources). The record is the count
  (uint32, little-endian) followed, when the count is zero, by the inline payload, and
  otherwise by that many entries of a length (uint32) and a 20-byte hash; a truncated
  buffer or a count that disagrees with the buffer's length is a decode error. The file
  is the concatenation, in listed order, of the first \<open>length\<close> bytes of each
  referenced chunk of the chunk space.
\<close>

datatype index_record = Inline bytes | ChunkRefs "(32 word \<times> bytes) list"

fun take_entries :: "nat \<Rightarrow> bytes \<Rightarrow> (32 word \<times> bytes) list option" where
  "take_entries 0 bs = (if bs = [] then Some [] else None)"
| "take_entries (Suc n) bs =
     (if length bs < 4 + sha1_Size then None
      else
        (case take_entries n (drop (4 + sha1_Size) bs) of
           None \<Rightarrow> None
         | Some es \<Rightarrow> Some ((Uint32 bs, take sha1_Size (drop 4 bs)) # es)))"

definition decode_record :: "bytes \<Rightarrow> index_record option" where
  "decode_record data =
     (if length data < 4 then None
      else if Uint32 data = 0 then Some (Inline (drop 4 data))
      else map_option ChunkRefs (take_entries (unat (Uint32 data)) (drop 4 data)))"

fun read_chunks :: "(bytes \<rightharpoonup> bytes) \<Rightarrow> (32 word \<times> bytes) list \<Rightarrow> bytes option" where
  "read_chunks m [] = Some []"
| "read_chunks m ((len, h) # es) =
     (case m h of
        None \<Rightarrow> None
      | Some c \<Rightarrow>
          (case read_chunks m es of
             None \<Rightarrow> None
           | Some rest \<Rightarrow> Some (take (unat len) c @ rest)))"

definition read_file :: "leveldbDriver \<Rightarrow> string \<Rightarrow> bytes option" where
  "read_file drv ident =
     (case kv (drv_files drv) (StringToBytes ident) of
        None \<Rightarrow> None
      | Some data \<Rightarrow>
          (case decode_record data of
             None \<Rightarrow> None
           | Some (Inline payload) \<Rightarrow> Some payload
           | Some (ChunkRefs es) \<Rightarrow> read_chunks (kv (drv_chunks drv)) es))"

text \<open>
  The same reconstruction taking each referenced chunk whole, whatever the entry's length
  field says.
\<close>

fun read_whole_chunks :: "(bytes \<rightharpoonup> bytes) \<Rightarrow> (32 word \<times> bytes) list \<Rightarrow> bytes option" where
  "read_whole_chunks m [] = Some []"
| "read_whole_chunks m ((len, h) # es) =
     (case m h of
        None \<Rightarrow> None
      | Some c \<Rightarrow>
          (case read_whole_chunks m es of
             None \<Rightarrow> None
           | Some rest \<Rightarrow> Some (c @ rest)))"

definition read_file_whole :: "leveldbDriver \<Rightarrow> string \<Rightarrow> bytes option" where
  "read_file_whole drv ident =
     (case kv (drv_files drv) (StringToBytes ident) of
        None \<Rightarrow> None
      | Some data \<Rightarrow>
          (case decode_record data of
             None \<Rightarrow> None
           | Some (Inline payload) \<Rightarrow> Some payload
           | Some (ChunkRefs es) \<Rightarrow> read_whole_chunks (kv (drv_chunks drv)) es))"

text \<open>An entry of the record as \<^verbatim>\<open>Close\<close> writes it: the length of the list element, then the element.\<close>

definition enc_entry :: "bytes \<Rightarrow> bytes" where
  "enc_entry h = le32 (of_nat (length h)) @ h"

definition enc_chunks :: "bytes list \<Rightarrow> bytes" where
  "enc_chunks cs = le32 (of_nat (length cs)) @ concat (map enc_entry cs)"

definition ref_of :: "bytes \<Rightarrow> 32 word \<times> bytes" where
  "ref_of h = (of_nat (length h), h)"

text \<open>The fields of the entry number \<open>i\<close> of a record that lists chunks.\<close>

definition entry_length :: "bytes \<Rightarrow> nat \<Rightarrow> 32 word" where
  "entry_length data i = Uint32 (drop (4 + i * (4 + sha1_Size)) data)"

definition entry_hash :: "bytes \<Rightarrow> nat \<Rightarrow> bytes" where
  "entry_hash data i = take sha1_Size (drop (4 + i * (4 + sha1_Size) + 4) data)"

text \<open>The chunks a stream is cut into: the complete ones and, if any bytes are left, the last one.\<close>

definition stream_chunks :: "bytes \<Rightarrow> bytes list" where
  "stream_chunks B = complete_chunks B @ (if remainder B = [] then [] else [remainder B])"

text \<open>
  A chunk space agrees with a set of chunks when, under the hash of each of them, it
  holds nothing or that very chunk.
\<close>

definition agrees :: "bytes set \<Rightarrow> (bytes \<rightharpoonup> bytes) \<Rightarrow> bool" where
  "agrees K m \<longleftrightarrow> (\<forall>d\<in>K. m (sha1_Sum d) = None \<or> m (sha1_Sum d) = Some d)"

text \<open>
  The driver a session leaves behind, the record then stored under an identifier, and a
  session without error followed by reading the file back, for the inline writer.
\<close>

definition after' :: "leveldbDriver \<Rightarrow> string \<Rightarrow> bytes list \<Rightarrow> leveldbDriver" where
  "after' drv ident ps = (case session' drv ident ps of Some (we, ce, drv2) \<Rightarrow> drv2 | None \<Rightarrow> drv)"

definition file_record :: "leveldbDriver \<Rightarrow> string \<Rightarrow> bytes option" where
  "file_record drv ident = kv (drv_files drv) (StringToBytes ident)"

definition read_back' :: "leveldbDriver \<Rightarrow> string \<Rightarrow> bytes list \<Rightarrow> bytes option" where
  "read_back' drv ident ps =
     (case session' drv ident ps of
        Some (None, None, drv2) \<Rightarrow> read_file drv2 ident
      | _ \<Rightarrow> None)"

definition read_back_whole' :: "leveldbDriver \<Rightarrow> string \<Rightarrow> bytes list \<Rightarrow> bytes option" where
  "read_back_whole' drv ident ps =
     (case session' drv ident ps of
        Some (None, None, drv2) \<Rightarrow> read_file_whole drv2 ident
      | _ \<Rightarrow> None)"

text \<open>An engine that reports no failure.\<close>

definition reliable :: "leveldbDriver \<Rightarrow> bool" where
  "reliable drv \<longleftrightarrow> script (drv_chunks drv) = [] \<and> script (drv_files drv) = []"

text \<open>
  For the batching writer: the chunk space as it will be once the pending batch is
  written, a pool whose sessions hold no pending batch, the driver a session leaves
  behind, and a session without error followed by reading the file back.
\<close>

definition view :: "wfile \<Rightarrow> leveldbDriver \<Rightarrow> (bytes \<rightharpoonup> bytes)" where
  "view f drv = apply_batch (batch f) (kv (drv_chunks drv))"

definition pool_clean :: "wfile list \<Rightarrow> bool" where
  "pool_clean pool \<longleftrightarrow> (\<forall>f\<in>set pool. batch f = [] \<and> batchSize f = 0)"

definition after :: "leveldbDriver \<Rightarrow> wfile list \<Rightarrow> string \<Rightarrow> bytes list \<Rightarrow> leveldbDriver" where
  "after drv pool ident ps = (case session drv pool ident ps of (we, ce, drv2, pool2) \<Rightarrow> drv2)"

definition read_back :: "leveldbDriver \<Rightarrow> wfile list \<Rightarrow> string \<Rightarrow> bytes list \<Rightarrow> bytes option" where
  "read_back drv pool ident ps =
     (case session drv pool ident ps of
        (None, None, drv2, pool2) \<Rightarrow> read_file drv2 ident
      | _ \<Rightarrow> None)"

definition read_back_whole :: "leveldbDriver \<Rightarrow> wfile list \<Rightarrow> string \<Rightarrow> bytes list \<Rightarrow> bytes option" where
  "read_back_whole drv pool ident ps =
     (case session drv pool ident ps of
        (None, None, drv2, pool2) \<Rightarrow> read_file_whole drv2 ident
      | _ \<Rightarrow> None)"

section \<open>Clients of the pool\<close>

text \<open>
  A session may be recycled as it is when it holds no pending batch as long as its chunk
  list is empty. A client acquires sessions, writes to them and closes them, in any
  order and against any engine; \<open>run\<close> gives the driver, the pool and the sessions
  checked out after a sequence of such steps, begun with an empty pool. A closed
  session is not used again.
\<close>

definition sess_ok :: "wfile \<Rightarrow> bool" where
  "sess_ok f \<longleftrightarrow> (chunks f = [] \<longrightarrow> batch f = [] \<and> batchSize f = 0)"

datatype client_op = Acquire string | WriteAt nat bytes | CloseAt nat

fun step ::
  "leveldbDriver \<times> wfile list \<times> wfile list \<Rightarrow> client_op
     \<Rightarrow> leveldbDriver \<times> wfile list \<times> wfile list" where
  "step (drv, pool, act) (Acquire ident) =
     (case newWFile pool ident of (pool1, f) \<Rightarrow> (drv, pool1, act @ [f]))"
| "step (drv, pool, act) (WriteAt i p) =
     (if i < length act then
        (case Chunker_Write drv (act ! i) p of (e, drv1, f1) \<Rightarrow> (drv1, pool, act[i := f1]))
      else (drv, pool, act))"
| "step (drv, pool, act) (CloseAt i) =
     (if i < length act then
        (case Close drv pool (act ! i) of
           (e, drv1, pool1, f1) \<Rightarrow> (drv1, pool1, take i act @ drop (Suc i) act))
      else (drv, pool, act))"

definition run :: "leveldbDriver \<Rightarrow> client_op list \<Rightarrow> leveldbDriver \<times> wfile list \<times> wfile list" where
  "run drv ops = foldl step (drv, [], []) ops"

definition pool_inv :: "leveldbDriver \<times> wfile list \<times> wfile list \<Rightarrow> bool" where
  "pool_inv s = (case s of (drv, pool, act) \<Rightarrow> pool_clean pool \<and> list_all sess_ok act)"

section \<open>Basic facts\<close>

lemma chunkSize_pos: "0 < chunkSize"
  by (simp add: chunkSize_def)

lemma length_be32: "length (be32 w) = 4"
  by (simp add: be32_def)

lemma length_sha1_Sum: "length (sha1_Sum d) = 20"
  by (simp add: sha1_Sum_def Let_def length_be32 split: prod.splits)

lemma flushBatch_fields:
  "flushBatch drv f = (err, drv', f') \<Longrightarrow>
     batch f' = [] \<and> batchSize f' = 0 \<and> chunks f' = chunks f \<and> pending f' = pending f
     \<and> file_id f' = file_id f \<and> drv_files drv' = drv_files drv"
  by (auto simp: flushBatch_def split: prod.splits)

lemma WriteChunk_fields:
  "WriteChunk drv f data = (err, drv', f') \<Longrightarrow>
     chunks f' = chunks f @ [sha1_Sum data] \<and> pending f' = pending f
     \<and> file_id f' = file_id f \<and> drv_files drv' = drv_files drv"
  by (auto simp: WriteChunk_def Let_def split: prod.splits if_splits dest!: flushBatch_fields)

termination Chunker_Write
proof (relation "measures [\<lambda>(drv, f, p). length p, \<lambda>(drv, f, p). length (pending f)]")
  show "wf (measures [\<lambda>(drv, f, p). length p, \<lambda>(drv, f, p). length (pending f :: bytes)])"
    by simp
next
  fix drv :: leveldbDriver and f :: wfile and p :: bytes and k r e z drv1 f1
  assume big: "\<not> length (pending f) + length p < chunkSize"
    and k: "k = chunkSize - length (pending f)"
    and w: "(r, e) = WriteChunk drv (f\<lparr>pending := []\<rparr>) (pending f @ take k p)"
    and e: "(drv1, f1) = e"
  from w e have "WriteChunk drv (f\<lparr>pending := []\<rparr>) (pending f @ take k p) = (r, drv1, f1)"
    by simp
  from WriteChunk_fields[OF this] have pf: "pending f1 = []"
    by simp
  show "((drv1, f1, drop k p), drv, f, p)
          \<in> measures [\<lambda>(drv, f, p). length p, \<lambda>(drv, f, p). length (pending f)]"
  proof (cases "k = 0")
    case True
    with big k chunkSize_pos have "0 < length (pending f)"
      by (cases "pending f") auto
    with True pf show ?thesis
      by simp
  next
    case False
    with big k have "p \<noteq> []"
      by auto
    with False show ?thesis
      by simp
  qed
qed

declare Chunker_Write.simps [simp del]

lemma chunkSize_less_maxBatchSize: "chunkSize < maxBatchSize"
  by (simp add: chunkSize_def maxBatchSize_def)

lemma outcome_failing_db [simp]: "outcome (failing_db e) = Some e"
  by (simp add: outcome_def failing_db_def)

lemma outcome_empty_db [simp]: "outcome empty_db = None"
  by (simp add: outcome_def empty_db_def)

subsection \<open>Splitting a stream into chunks\<close>

lemma complete_chunks_short: "length s < chunkSize \<Longrightarrow> complete_chunks s = []"
  by (simp add: complete_chunks_def)

lemma remainder_short: "length s < chunkSize \<Longrightarrow> remainder s = s"
  by (simp add: remainder_def)

lemma complete_chunks_Cons:
  assumes "length a = chunkSize"
  shows "complete_chunks (a @ s) = a # complete_chunks s"
proof -
  have "(chunkSize + length s) div chunkSize = Suc (length s div chunkSize)"
    using chunkSize_pos div_add_self1[of chunkSize "length s"] by simp
  then show ?thesis
    using assms by (simp add: complete_chunks_def)
qed

lemma remainder_Cons:
  assumes "length a = chunkSize"
  shows "remainder (a @ s) = remainder s"
proof -
  define m where "m = length s - length s mod chunkSize"
  have "length s mod chunkSize \<le> length s"
    by (rule mod_less_eq_dividend)
  then have e: "length (a @ s) - length (a @ s) mod chunkSize = length a + m"
    using assms by (simp add: m_def)
  have "drop (length a + m) (a @ s) = drop m s"
    by simp
  then show ?thesis
    unfolding remainder_def e m_def .
qed

lemma length_blocks_of: "length (blocks_of n k xs) = n"
  by (induction n arbitrary: xs) auto

lemma length_complete_chunks: "length (complete_chunks s) = length s div chunkSize"
  by (simp add: complete_chunks_def length_blocks_of)

lemma length_remainder: "length (remainder s) = length s mod chunkSize"
proof -
  have "length s mod chunkSize \<le> length s"
    by (rule mod_less_eq_dividend)
  then show ?thesis
    by (simp add: remainder_def)
qed

lemma length_remainder_less: "length (remainder s) < chunkSize"
  by (simp add: length_remainder chunkSize_pos)

lemma length_stream_chunks:
  "length (stream_chunks s) = length s div chunkSize + (if length s mod chunkSize = 0 then 0 else 1)"
proof -
  have "(remainder s = []) = (length s mod chunkSize = 0)"
    using length_remainder[of s] by (metis length_0_conv)
  then show ?thesis
    by (simp add: stream_chunks_def length_complete_chunks)
qed

lemma blocks_of_length:
  "n * k \<le> length xs \<Longrightarrow> c \<in> set (blocks_of n k xs) \<Longrightarrow> length c = k"
proof (induction n arbitrary: xs)
  case 0
  then show ?case by simp
next
  case (Suc n)
  from Suc.prems(1) have k: "k \<le> length xs" and n: "n * k \<le> length (drop k xs)"
    by auto
  from Suc.prems(2) consider "c = take k xs" | "c \<in> set (blocks_of n k (drop k xs))"
    by auto
  then show ?case
  proof cases
    case 1
    with k show ?thesis by simp
  next
    case 2
    with Suc.IH[OF n] show ?thesis by simp
  qed
qed

lemma complete_chunks_length: "c \<in> set (complete_chunks s) \<Longrightarrow> length c = chunkSize"
proof -
  assume c: "c \<in> set (complete_chunks s)"
  have "length s div chunkSize * chunkSize \<le> length s"
    by simp
  from c have "c \<in> set (blocks_of (length s div chunkSize) chunkSize s)"
    by (simp only: complete_chunks_def)
  with \<open>length s div chunkSize * chunkSize \<le> length s\<close> show ?thesis
    by (rule blocks_of_length)
qed

lemma concat_blocks_of: "concat (blocks_of n k xs) = take (n * k) xs"
proof (induction n arbitrary: xs)
  case 0
  then show ?case by simp
next
  case (Suc n)
  then show ?case
    by (simp add: take_add add.commute)
qed

lemma concat_complete_chunks: "concat (complete_chunks s) @ remainder s = s"
proof -
  have "length s div chunkSize * chunkSize = length s - length s mod chunkSize"
    by (simp add: minus_mod_eq_div_mult)
  then show ?thesis
    by (simp add: complete_chunks_def remainder_def concat_blocks_of)
qed

lemma split_stream:
  assumes "chunkSize \<le> length s"
  shows "complete_chunks s = take chunkSize s # complete_chunks (drop chunkSize s)"
    and "remainder s = remainder (drop chunkSize s)"
proof -
  have s: "s = take chunkSize s @ drop chunkSize s"
    by simp
  have l: "length (take chunkSize s) = chunkSize"
    using assms by simp
  show "complete_chunks s = take chunkSize s # complete_chunks (drop chunkSize s)"
    using complete_chunks_Cons[OF l, of "drop chunkSize s"] by simp
  show "remainder s = remainder (drop chunkSize s)"
    using remainder_Cons[OF l, of "drop chunkSize s"] by simp
qed

lemma complete_chunks_append:
  "complete_chunks (s @ t) = complete_chunks s @ complete_chunks (remainder s @ t)"
proof (induction s rule: length_induct)
  case (1 s)
  show ?case
  proof (cases "length s < chunkSize")
    case True
    then show ?thesis
      by (simp add: complete_chunks_short remainder_short)
  next
    case False
    then have ge: "chunkSize \<le> length s" by simp
    have l: "length (drop chunkSize s) < length s"
      using ge chunkSize_pos by simp
    have ge': "chunkSize \<le> length (s @ t)" using ge by simp
    have "complete_chunks (s @ t)
            = take chunkSize (s @ t) # complete_chunks (drop chunkSize (s @ t))"
      by (rule split_stream(1)[OF ge'])
    also have "\<dots> = take chunkSize s # complete_chunks (drop chunkSize s @ t)"
      using ge by simp
    also have "\<dots> = take chunkSize s # complete_chunks (drop chunkSize s)
                        @ complete_chunks (remainder (drop chunkSize s) @ t)"
      using 1[rule_format, OF l] by simp
    also have "\<dots> = complete_chunks s @ complete_chunks (remainder s @ t)"
      by (simp only: split_stream(1)[OF ge, symmetric] split_stream(2)[OF ge, symmetric]
          append_Cons[symmetric])
    finally show ?thesis .
  qed
qed

lemma remainder_append: "remainder (s @ t) = remainder (remainder s @ t)"
proof (induction s rule: length_induct)
  case (1 s)
  show ?case
  proof (cases "length s < chunkSize")
    case True
    then show ?thesis
      by (simp add: remainder_short)
  next
    case False
    then have ge: "chunkSize \<le> length s" by simp
    have l: "length (drop chunkSize s) < length s"
      using ge chunkSize_pos by simp
    have ge': "chunkSize \<le> length (s @ t)" using ge by simp
    have "remainder (s @ t) = remainder (drop chunkSize (s @ t))"
      by (rule split_stream(2)[OF ge'])
    also have "\<dots> = remainder (drop chunkSize s @ t)"
      using ge by simp
    also have "\<dots> = remainder (remainder (drop chunkSize s) @ t)"
      using 1[rule_format, OF l] by simp
    also have "\<dots> = remainder (remainder s @ t)"
      by (simp only: split_stream(2)[OF ge, symmetric])
    finally show ?thesis .
  qed
qed

subsection \<open>Writes as lists of chunks\<close>

lemma Chunker_Write_chunks:
  "length (pending f) < chunkSize \<Longrightarrow>
   Chunker_Write drv f p =
     (case WriteChunks drv (f\<lparr>pending := []\<rparr>) (complete_chunks (pending f @ p)) of
        (None, drv1, f1) \<Rightarrow> (None, drv1, f1\<lparr>pending := remainder (pending f @ p)\<rparr>)
      | (Some e, drv1, f1) \<Rightarrow> (Some e, drv1, f1))"
proof (induction drv f p rule: Chunker_Write.induct)
  case (1 drv f p)
  show ?case
  proof (cases "length (pending f) + length p < chunkSize")
    case True
    then show ?thesis
      by (simp add: Chunker_Write.simps[of drv f p] complete_chunks_short remainder_short)
  next
    case False
    define k where "k = chunkSize - length (pending f)"
    define data where "data = pending f @ take k p"
    have ld: "length data = chunkSize"
      using False "1.prems" by (simp add: data_def k_def)
    have s: "pending f @ p = data @ drop k p"
      by (simp add: data_def)
    obtain r drv1 f1 where w: "WriteChunk drv (f\<lparr>pending := []\<rparr>) data = (r, drv1, f1)"
      by (cases "WriteChunk drv (f\<lparr>pending := []\<rparr>) data") auto
    from WriteChunk_fields[OF w] have pf: "pending f1 = []"
      by simp
    then have f1: "f1\<lparr>pending := []\<rparr> = f1"
      by (cases f1) simp
    show ?thesis
    proof (cases r)
      case None
      have "Chunker_Write drv f p = Chunker_Write drv1 f1 (drop k p)"
        using False w None by (simp add: Chunker_Write.simps[of drv f p] k_def data_def)
      also have "\<dots> = (case WriteChunks drv1 (f1\<lparr>pending := []\<rparr>) (complete_chunks (pending f1 @ drop k p)) of
          (None, drv2, f2) \<Rightarrow> (None, drv2, f2\<lparr>pending := remainder (pending f1 @ drop k p)\<rparr>)
        | (Some e, drv2, f2) \<Rightarrow> (Some e, drv2, f2))"
      proof -
        have w': "(None, drv1, f1) = WriteChunk drv (f\<lparr>pending := []\<rparr>) (pending f @ take k p)"
          using w None by (simp add: data_def)
        have "length (pending f1) < chunkSize"
          using pf chunkSize_pos by simp
        from "1.IH"[OF False k_def w' refl refl this] show ?thesis .
      qed
      finally have cw: "Chunker_Write drv f p =
          (case WriteChunks drv1 (f1\<lparr>pending := []\<rparr>) (complete_chunks (pending f1 @ drop k p)) of
             (None, drv2, f2) \<Rightarrow> (None, drv2, f2\<lparr>pending := remainder (pending f1 @ drop k p)\<rparr>)
           | (Some e, drv2, f2) \<Rightarrow> (Some e, drv2, f2))" .
      have rm: "remainder (pending f1 @ drop k p) = remainder (pending f @ p)"
        by (simp add: pf s remainder_Cons[OF ld])
      have cc: "complete_chunks (pending f @ p) = data # complete_chunks (pending f1 @ drop k p)"
        by (simp add: pf s complete_chunks_Cons[OF ld])
      show ?thesis
        unfolding cw rm cc using w None by (simp add: f1)
    next
      case (Some e)
      have "Chunker_Write drv f p = (Some e, drv1, f1)"
        using False w Some by (simp add: Chunker_Write.simps[of drv f p] k_def data_def)
      then show ?thesis
        using w Some by (simp add: s complete_chunks_Cons[OF ld])
    qed
  qed
qed

lemma writeChunk_put_chunk:
  assumes "offset f \<le> length (buf f)"
  shows "writeChunk drv f =
     (case put_chunk drv (pend f) of
        (None, drv1) \<Rightarrow> (None, drv1, f\<lparr>offset := 0, chunks' := chunks' f @ [sha1_Sum (pend f)]\<rparr>)
      | (Some e, drv1) \<Rightarrow> (Some e, drv1, f\<lparr>offset := 0\<rparr>))"
  using assms
  by (auto simp: writeChunk_def put_chunk_def pend_def Let_def split: prod.splits option.splits)

lemma Write_loop_Nil: "Write_loop drv f [] n = Some ((n, None), drv, f)"
  by (simp add: Write_loop.simps)

lemma Write_loop_chunks:
  assumes "wf' f"
  shows "\<exists>r drv' f'. Write_loop drv f p n = Some (r, drv', f') \<and> wf' f'
           \<and> file_id' f' = file_id' f
           \<and> (snd r, drv', chunks' f') = writeChunks drv (chunks' f) (complete_chunks (pend f @ p))
           \<and> (snd r = None \<longrightarrow> fst r = n + length p \<and> pend f' = remainder (pend f @ p))
           \<and> (snd r \<noteq> None \<longrightarrow> offset f' = 0)"
  using assms
proof (induction p arbitrary: drv f n rule: length_induct)
  case (1 p)
  from "1.prems" have lb: "length (buf f) = chunkSize" and off: "offset f < chunkSize"
    by (simp_all add: wf'_def)
  have lp: "length (pend f) = offset f"
    using lb off by (simp add: pend_def)
  show ?case
  proof (cases "p = []")
    case True
    then show ?thesis
      using "1.prems" lp off
      by (simp add: Write_loop_Nil complete_chunks_short remainder_short)
  next
    case False
    define c where "c = min (chunkSize - offset f) (length p)"
    define f1 where "f1 = f\<lparr>buf := take (offset f) (buf f) @ take c p @ drop (offset f + c) (buf f),
                             offset := offset f + c\<rparr>"
    have cpos: "0 < c"
      using False off by (simp add: c_def)
    have cp: "copy (buf f) (offset f) p = (buf f1, c)"
      using lb by (simp add: copy_def c_def f1_def Let_def)
    have lb1: "length (buf f1) = chunkSize"
      using lb off by (auto simp: f1_def c_def min_def)
    have pend1: "pend f1 = pend f @ take c p"
      using lb off by (simp add: pend_def f1_def c_def min_def)
    have step: "Write_loop drv f p n =
        (if offset f1 = chunkSize then
           (case writeChunk drv f1 of
              (Some err, drv2, f2) \<Rightarrow> Some ((n + c, Some err), drv2, f2)
            | (None, drv2, f2) \<Rightarrow> Write_loop drv2 f2 (drop c p) (n + c))
         else Write_loop drv f1 (drop c p) (n + c))"
      using False lb off cp
      by (subst Write_loop.simps) (simp add: f1_def Let_def)
    show ?thesis
    proof (cases "offset f1 = chunkSize")
      case full: True
      then have c: "c = chunkSize - offset f" and cle: "c \<le> length p"
        using off by (auto simp: f1_def c_def min_def)
      have ld: "length (pend f1) = chunkSize"
        using pend1 lp c cle off by simp
      have s: "pend f @ p = pend f1 @ drop c p"
        by (simp add: pend1)
      have cc: "complete_chunks (pend f @ p) = pend f1 # complete_chunks (drop c p)"
        unfolding s by (rule complete_chunks_Cons[OF ld])
      have rm: "remainder (pend f @ p) = remainder (drop c p)"
        unfolding s by (rule remainder_Cons[OF ld])
      have wc: "writeChunk drv f1 =
          (case put_chunk drv (pend f1) of
             (None, drv1) \<Rightarrow> (None, drv1, f1\<lparr>offset := 0, chunks' := chunks' f1 @ [sha1_Sum (pend f1)]\<rparr>)
           | (Some e, drv1) \<Rightarrow> (Some e, drv1, f1\<lparr>offset := 0\<rparr>))"
        by (rule writeChunk_put_chunk) (simp add: full lb1)
      obtain e drv1 where pc: "put_chunk drv (pend f1) = (e, drv1)"
        by (cases "put_chunk drv (pend f1)") auto
      show ?thesis
      proof (cases e)
        case (Some err)
        have "Write_loop drv f p n = Some ((n + c, Some err), drv1, f1\<lparr>offset := 0\<rparr>)"
          using step full wc pc Some by simp
        moreover have "wf' (f1\<lparr>offset := 0\<rparr>)"
          using lb1 chunkSize_pos by (simp add: wf'_def)
        moreover have "writeChunks drv (chunks' f) (complete_chunks (pend f @ p))
                         = (Some err, drv1, chunks' f)"
          using pc Some by (simp add: cc)
        ultimately show ?thesis
          by (simp add: f1_def)
      next
        case None
        define f2 where "f2 = f1\<lparr>offset := 0, chunks' := chunks' f1 @ [sha1_Sum (pend f1)]\<rparr>"
        have w2: "wf' f2"
          using lb1 chunkSize_pos by (simp add: wf'_def f2_def)
        have p2: "pend f2 = []"
          by (simp add: pend_def f2_def)
        have "length (drop c p) < length p"
          using cpos False by simp
        from "1.IH"[rule_format, OF this w2, of drv1 "n + c"]
        obtain r drv' f' where
          wl: "Write_loop drv1 f2 (drop c p) (n + c) = Some (r, drv', f')" and "wf' f'"
          and "file_id' f' = file_id' f2"
          and ws: "(snd r, drv', chunks' f') = writeChunks drv1 (chunks' f2) (complete_chunks (drop c p))"
          and ok: "snd r = None \<longrightarrow> fst r = n + c + length (drop c p) \<and> pend f' = remainder (drop c p)"
          and bad: "snd r \<noteq> None \<longrightarrow> offset f' = 0"
          by (auto simp: p2)
        have "Write_loop drv f p n = Some (r, drv', f')"
          using step full wc pc None wl by (simp add: f2_def)
        moreover have "writeChunks drv (chunks' f) (complete_chunks (pend f @ p))
                         = writeChunks drv1 (chunks' f2) (complete_chunks (drop c p))"
          using pc None by (simp add: cc f2_def f1_def)
        moreover have "n + c + length (drop c p) = n + length p"
          using cle by simp
        ultimately show ?thesis
          using \<open>wf' f'\<close> \<open>file_id' f' = file_id' f2\<close> ws ok bad
          by (simp add: rm f2_def f1_def)
      qed
    next
      case part: False
      then have c: "c = length p" and small: "offset f + length p < chunkSize"
        using off by (auto simp: f1_def c_def min_def split: if_splits)
      have "Write_loop drv f p n = Some ((n + length p, None), drv, f1)"
        using step part c by (simp add: Write_loop_Nil)
      moreover have "wf' f1"
        using lb1 small c by (simp add: wf'_def f1_def)
      moreover have "pend f1 = pend f @ p"
        using pend1 c by simp
      moreover have "length (pend f @ p) < chunkSize"
        using lp small by simp
      ultimately show ?thesis
        by (simp add: complete_chunks_short remainder_short f1_def)
    qed
  qed
qed

lemma copy_fits:
  "pos + length src \<le> length dst \<Longrightarrow>
     copy dst pos src = (take pos dst @ src @ drop (pos + length src) dst, length src)"
  by (auto simp: copy_def Let_def min_def)

lemma inline_record_eq:
  "n \<le> length src \<Longrightarrow> inline_record n src = Some (le32 0 @ take n src)"
  by (simp add: inline_record_def PutUint32_def copy_def Let_def min_def le32_def)

lemma writeChunks_append:
  "writeChunks drv cl (xs @ ys) =
     (case writeChunks drv cl xs of
        (Some e, drv1, cl1) \<Rightarrow> (Some e, drv1, cl1)
      | (None, drv1, cl1) \<Rightarrow> writeChunks drv1 cl1 ys)"
  by (induction xs arbitrary: drv cl) (auto split: prod.splits option.splits)

lemma WriteChunks_append:
  "WriteChunks drv f (xs @ ys) =
     (case WriteChunks drv f xs of
        (Some e, drv1, f1) \<Rightarrow> (Some e, drv1, f1)
      | (None, drv1, f1) \<Rightarrow> WriteChunks drv1 f1 ys)"
  by (induction xs arbitrary: drv f) (auto split: prod.splits option.splits)

lemma WriteChunks_fields:
  "WriteChunks drv f ds = (err, drv', f') \<Longrightarrow>
     pending f' = pending f \<and> file_id f' = file_id f \<and> drv_files drv' = drv_files drv"
proof (induction ds arbitrary: drv f)
  case Nil
  then show ?case by simp
next
  case (Cons d ds)
  obtain r drv1 f1 where w: "WriteChunk drv f d = (r, drv1, f1)"
    by (cases "WriteChunk drv f d") auto
  from WriteChunk_fields[OF w] Cons w show ?case
    by (cases r) auto
qed

lemma Writes_concat:
  "length (pending f) < chunkSize \<Longrightarrow> Writes drv f ps = Chunker_Write drv f (concat ps)"
proof (induction ps arbitrary: drv f)
  case Nil
  then show ?case
    by (simp add: Chunker_Write.simps[of drv f "[]"])
next
  case (Cons p ps)
  define s where "s = pending f @ p"
  obtain r drv1 f1 where w: "WriteChunks drv (f\<lparr>pending := []\<rparr>) (complete_chunks s) = (r, drv1, f1)"
    by (cases "WriteChunks drv (f\<lparr>pending := []\<rparr>) (complete_chunks s)") auto
  from WriteChunks_fields[OF w] have pf: "pending f1 = []"
    by simp
  have "Chunker_Write drv f (p @ concat ps) =
      (case WriteChunks drv (f\<lparr>pending := []\<rparr>) (complete_chunks (s @ concat ps)) of
         (None, drv2, f2) \<Rightarrow> (None, drv2, f2\<lparr>pending := remainder (s @ concat ps)\<rparr>)
       | (Some e, drv2, f2) \<Rightarrow> (Some e, drv2, f2))"
    unfolding s_def append_assoc by (rule Chunker_Write_chunks[OF Cons.prems])
  then have cw: "Chunker_Write drv f (p @ concat ps) =
      (case WriteChunks drv (f\<lparr>pending := []\<rparr>)
              (complete_chunks s @ complete_chunks (remainder s @ concat ps)) of
         (None, drv2, f2) \<Rightarrow> (None, drv2, f2\<lparr>pending := remainder (remainder s @ concat ps)\<rparr>)
       | (Some e, drv2, f2) \<Rightarrow> (Some e, drv2, f2))"
    unfolding complete_chunks_append[of s "concat ps"] remainder_append[of s "concat ps"] .
  show ?case
  proof (cases r)
    case (Some e)
    then show ?thesis
      using w cw Chunker_Write_chunks[OF Cons.prems, of drv p]
      by (simp add: s_def[symmetric] WriteChunks_append)
  next
    case None
    define g where "g = f1\<lparr>pending := remainder s\<rparr>"
    have lg: "length (pending g) < chunkSize"
      by (simp add: g_def length_remainder_less)
    have pg: "pending g = remainder s"
      by (simp add: g_def)
    have g0: "g\<lparr>pending := []\<rparr> = f1"
      using pf by (cases f1) (simp add: g_def)
    have "Writes drv f (p # ps) = Writes drv1 g ps"
      using w None Chunker_Write_chunks[OF Cons.prems, of drv p]
      by (simp add: s_def[symmetric] g_def)
    also have "\<dots> = Chunker_Write drv1 g (concat ps)"
      by (rule Cons.IH[OF lg])
    also have "\<dots> = (case WriteChunks drv1 f1 (complete_chunks (remainder s @ concat ps)) of
         (None, drv2, f2) \<Rightarrow> (None, drv2, f2\<lparr>pending := remainder (remainder s @ concat ps)\<rparr>)
       | (Some e, drv2, f2) \<Rightarrow> (Some e, drv2, f2))"
      by (rule Chunker_Write_chunks[OF lg, of drv1 "concat ps", unfolded g0 pg])
    also have "\<dots> = Chunker_Write drv f (p @ concat ps)"
      using w None by (simp add: cw WriteChunks_append)
    finally show ?thesis
      by simp
  qed
qed

lemma wf'_newWFile': "wf' (newWFile' ident)"
  using chunkSize_pos by (simp add: wf'_def newWFile'_def)

lemma pend_newWFile': "pend (newWFile' ident) = []"
  by (simp add: pend_def newWFile'_def)

lemma Writes'_chunks:
  assumes "wf' f"
  shows "\<exists>e drv' f'. Writes' drv f ps = Some (e, drv', f') \<and> wf' f'
           \<and> file_id' f' = file_id' f
           \<and> (e, drv', chunks' f') = writeChunks drv (chunks' f) (complete_chunks (pend f @ concat ps))
           \<and> (e = None \<longrightarrow> pend f' = remainder (pend f @ concat ps))
           \<and> (e \<noteq> None \<longrightarrow> offset f' = 0)"
  using assms
proof (induction ps arbitrary: drv f)
  case Nil
  then have "length (pend f) < chunkSize"
    by (simp add: wf'_def pend_def)
  with Nil show ?case
    by (simp add: complete_chunks_short remainder_short)
next
  case (Cons p ps)
  define s where "s = pend f @ p"
  from Write_loop_chunks[OF Cons.prems, of drv p 0]
  obtain r drv1 f1 where
    wl: "Write drv f p = Some (r, drv1, f1)" and w1: "wf' f1"
    and id1: "file_id' f1 = file_id' f"
    and ws: "(snd r, drv1, chunks' f1) = writeChunks drv (chunks' f) (complete_chunks s)"
    and ok: "snd r = None \<longrightarrow> pend f1 = remainder s"
    and bad: "snd r \<noteq> None \<longrightarrow> offset f1 = 0"
    by (auto simp: Write_def s_def)
  have split: "complete_chunks (pend f @ concat (p # ps))
                 = complete_chunks s @ complete_chunks (remainder s @ concat ps)"
    using complete_chunks_append[of s "concat ps"] by (simp add: s_def)
  have rsplit: "remainder (pend f @ concat (p # ps)) = remainder (remainder s @ concat ps)"
    using remainder_append[of s "concat ps"] by (simp add: s_def)
  show ?case
  proof (cases "snd r")
    case (Some e)
    then have "Writes' drv f (p # ps) = Some (Some e, drv1, f1)"
      using wl by (cases r) simp
    moreover have "writeChunks drv (chunks' f) (complete_chunks (pend f @ concat (p # ps)))
                     = (Some e, drv1, chunks' f1)"
      unfolding split writeChunks_append using ws[symmetric] Some by simp
    ultimately show ?thesis
      using w1 id1 bad Some by simp
  next
    case None
    then have "Writes' drv f (p # ps) = Writes' drv1 f1 ps"
      using wl by (cases r) simp
    moreover have "writeChunks drv (chunks' f) (complete_chunks (pend f @ concat (p # ps)))
                     = writeChunks drv1 (chunks' f1) (complete_chunks (pend f1 @ concat ps))"
      unfolding split writeChunks_append using ws[symmetric] None ok by simp
    moreover have "remainder (pend f @ concat (p # ps)) = remainder (pend f1 @ concat ps)"
      unfolding rsplit using ok None by simp
    ultimately show ?thesis
      using Cons.IH[OF w1, of drv1] id1 by simp
  qed
qed

lemma Close'_close':
  assumes "wf' f"
  shows "(fst (Close' drv f), fst (snd (Close' drv f))) = close' drv (file_id' f) (chunks' f) (pend f)"
proof -
  from assms have lb: "length (buf f) = chunkSize" and off: "offset f < chunkSize"
    by (simp_all add: wf'_def)
  have lp: "length (pend f) = offset f"
    using lb off by (simp add: pend_def)
  then have pz: "pend f \<noteq> [] \<longleftrightarrow> 0 < offset f"
    by (cases "pend f") auto
  have ir: "inline_record (offset f) (buf f) = inline_record (length (pend f)) (pend f)"
    using lb off by (simp add: inline_record_eq lp) (simp add: pend_def)
  have wc: "writeChunk drv f =
      (case put_chunk drv (pend f) of
         (None, drv1) \<Rightarrow> (None, drv1, f\<lparr>offset := 0, chunks' := chunks' f @ [sha1_Sum (pend f)]\<rparr>)
       | (Some e, drv1) \<Rightarrow> (Some e, drv1, f\<lparr>offset := 0\<rparr>))"
    by (rule writeChunk_put_chunk) (simp add: lb off less_imp_le)
  show ?thesis
    unfolding Close'_def close'_def pz ir wc
    by (auto split: option.splits prod.splits)
qed

lemma session'_plan': "session' drv ident ps = Some (plan' drv ident (concat ps))"
proof -
  from Writes'_chunks[OF wf'_newWFile', of drv ident ps]
  obtain e drv1 f1 where
    w: "Writes' drv (newWFile' ident) ps = Some (e, drv1, f1)" and w1: "wf' f1"
    and id1: "file_id' f1 = ident"
    and ws: "writeChunks drv [] (complete_chunks (concat ps)) = (e, drv1, chunks' f1)"
    and ok: "e = None \<longrightarrow> pend f1 = remainder (concat ps)"
    and bad: "e \<noteq> None \<longrightarrow> offset f1 = 0"
    by (auto simp: pend_newWFile') (auto simp: newWFile'_def)
  have pf: "pend f1 = (if e = None then remainder (concat ps) else [])"
    using ok bad by (auto simp: pend_def)
  obtain ce drv2 f2 where c: "Close' drv1 f1 = (ce, drv2, f2)"
    by (cases "Close' drv1 f1") auto
  with Close'_close'[OF w1, of drv1]
  have "close' drv1 ident (chunks' f1) (if e = None then remainder (concat ps) else []) = (ce, drv2)"
    by (simp add: id1 pf)
  then show ?thesis
    by (simp add: session'_def plan'_def w ws c)
qed

subsection \<open>The codec\<close>

lemma Uint32_le32: "Uint32 (le32 v @ rest) = v"
proof (rule bit_word_eqI)
  fix n
  assume "n < LENGTH(32)"
  then have n: "n < 32" by simp
  consider "n < 8" | "8 \<le> n" "n < 16" | "16 \<le> n" "n < 24" | "24 \<le> n" "n < 32"
    using n by linarith
  then show "bit (Uint32 (le32 v @ rest)) n = bit v n"
  proof cases
    case 1
    then show ?thesis
      by (simp add: Uint32_def le32_def bit_simps)
  next
    case 2
    then have "8 + (n - 8) = n" by simp
    with 2 show ?thesis
      by (auto simp: Uint32_def le32_def bit_simps)
  next
    case 3
    then have "16 + (n - 16) = n" "8 + (n - 8) = n" "\<not> n - 8 < 8" "8 + (n - 16) = n - 8" by simp_all
    with 3 show ?thesis
      by (auto simp: Uint32_def le32_def bit_simps)
  next
    case 4
    then have "24 + (n - 24) = n" "\<not> n - 8 < 8" "\<not> n - 16 < 8" "16 + (n - 24) = n - 8"
      "8 + (n - 24) = n - 16" by simp_all
    with 4 show ?thesis
      by (auto simp: Uint32_def le32_def bit_simps)
  qed
qed

lemma length_le32: "length (le32 v) = 4"
  by (simp add: le32_def)

lemma put_chunks_eq:
  assumes "\<forall>h\<in>set cs. length h = 20" and "length pre = pos" and "length z = 24 * length cs"
  shows "put_chunks (pre @ z) pos cs = Some (pre @ concat (map enc_entry cs))"
  using assms
proof (induction cs arbitrary: pre pos z)
  case Nil
  then show ?case by simp
next
  case (Cons h cs)
  from Cons.prems have lh: "length h = 20" and lz: "length z = 24 + 24 * length cs"
    by simp_all
  define z' where "z' = drop 24 z"
  have lz': "length z' = 24 * length cs"
    using lz by (simp add: z'_def)
  have p1: "PutUint32 (pre @ z) pos (of_nat (length h)) = Some (pre @ le32 (of_nat (length h)) @ drop 4 z)"
    using Cons.prems(2) lz by (simp add: PutUint32_def)
  have p2: "copy (pre @ le32 (of_nat (length h)) @ drop 4 z) (pos + 4) h
              = ((pre @ enc_entry h) @ z', 20)"
    using Cons.prems(2) lz lh
    by (simp add: copy_def Let_def min_def length_le32 enc_entry_def z'_def)
  have "put_chunks (pre @ z) pos (h # cs) = put_chunks ((pre @ enc_entry h) @ z') (pos + 24) cs"
    by (simp add: p1 p2 add.commute)
  also have "\<dots> = Some ((pre @ enc_entry h) @ concat (map enc_entry cs))"
    using Cons.prems(1,2) lh lz'
    by (intro Cons.IH) (simp_all add: enc_entry_def length_le32)
  finally show ?case
    by simp
qed

lemma chunk_record_eq:
  assumes "\<forall>h\<in>set cs. length h = 20"
  shows "chunk_record cs = Some (le32 (of_nat (length cs)) @ concat (map enc_entry cs))"
proof -
  have "PutUint32 (replicate (length cs * (sha1_Size + 4) + 4) 0) 0 (of_nat (length cs))
          = Some (le32 (of_nat (length cs)) @ replicate (24 * length cs) 0)"
    by (simp add: PutUint32_def sha1_Size_def mult.commute)
  moreover have "put_chunks (le32 (of_nat (length cs)) @ replicate (24 * length cs) 0) 4 cs
          = Some (le32 (of_nat (length cs)) @ concat (map enc_entry cs))"
    using assms by (intro put_chunks_eq) (simp_all add: length_le32)
  ultimately show ?thesis
    by (simp add: chunk_record_def Let_def)
qed

subsection \<open>The inline writer and the chunk space\<close>

lemma put_chunk_files: "put_chunk drv d = (e, drv1) \<Longrightarrow> drv_files drv1 = drv_files drv"
  by (auto simp: put_chunk_def split: prod.splits if_splits)

lemma put_chunk_kv:
  assumes "put_chunk drv d = (None, drv1)"
  shows "(kv (drv_chunks drv) (sha1_Sum d) \<noteq> None \<and> kv (drv_chunks drv1) = kv (drv_chunks drv))
         \<or> kv (drv_chunks drv1) = (kv (drv_chunks drv))(sha1_Sum d \<mapsto> d)"
  using assms
  by (auto simp: put_chunk_def db_Get_def db_Put_def called_def outcome_def
      split: prod.splits if_splits option.splits list.splits)

lemma put_chunk_reliable:
  assumes "script (drv_chunks drv) = []"
  shows "\<exists>drv1. put_chunk drv d = (None, drv1) \<and> script (drv_chunks drv1) = []
           \<and> drv_files drv1 = drv_files drv"
  using assms
  by (auto simp: put_chunk_def db_Get_def db_Put_def called_def outcome_def
      split: prod.splits if_splits option.splits list.splits)

lemma writeChunks_result:
  "writeChunks drv cl ds = (e, drv1, cl1) \<Longrightarrow>
     drv_files drv1 = drv_files drv
     \<and> (\<exists>k\<le>length ds. cl1 = cl @ map sha1_Sum (take k ds))
     \<and> (e = None \<longrightarrow> cl1 = cl @ map sha1_Sum ds)"
proof (induction ds arbitrary: drv cl)
  case Nil
  then show ?case by simp
next
  case (Cons d ds)
  obtain r drv' where pc: "put_chunk drv d = (r, drv')"
    by (cases "put_chunk drv d") auto
  show ?case
  proof (cases r)
    case (Some err)
    with Cons.prems pc put_chunk_files[OF pc] show ?thesis
      by (auto intro: exI[of _ 0])
  next
    case None
    with Cons.prems pc have "writeChunks drv' (cl @ [sha1_Sum d]) ds = (e, drv1, cl1)"
      by simp
    from Cons.IH[OF this] obtain k where k: "k \<le> length ds"
      "cl1 = (cl @ [sha1_Sum d]) @ map sha1_Sum (take k ds)"
      and f: "drv_files drv1 = drv_files drv'"
      and ok: "e = None \<longrightarrow> cl1 = (cl @ [sha1_Sum d]) @ map sha1_Sum ds"
      by auto
    from k have "Suc k \<le> length (d # ds) \<and> cl1 = cl @ map sha1_Sum (take (Suc k) (d # ds))"
      by simp
    then have "\<exists>k\<le>length (d # ds). cl1 = cl @ map sha1_Sum (take k (d # ds))"
      by blast
    with f ok put_chunk_files[OF pc] show ?thesis
      by simp
  qed
qed

lemma writeChunks_reliable:
  assumes "script (drv_chunks drv) = []"
  shows "\<exists>drv1. writeChunks drv cl ds = (None, drv1, cl @ map sha1_Sum ds)
           \<and> script (drv_chunks drv1) = [] \<and> drv_files drv1 = drv_files drv"
  using assms
proof (induction ds arbitrary: drv cl)
  case Nil
  then show ?case by simp
next
  case (Cons d ds)
  from put_chunk_reliable[OF Cons.prems, of d] obtain drv' where
    pc: "put_chunk drv d = (None, drv')" and s: "script (drv_chunks drv') = []"
    and f: "drv_files drv' = drv_files drv"
    by blast
  from Cons.IH[OF s, of "cl @ [sha1_Sum d]"] pc f show ?case
    by auto
qed

lemma put_chunk_agrees:
  assumes "put_chunk drv d = (None, drv1)" and "d \<in> K" and "inj_on sha1_Sum K"
    and "agrees K (kv (drv_chunks drv))"
  shows "agrees K (kv (drv_chunks drv1)) \<and> kv (drv_chunks drv1) (sha1_Sum d) = Some d
         \<and> (\<forall>x\<in>K. kv (drv_chunks drv) (sha1_Sum x) = Some x
                \<longrightarrow> kv (drv_chunks drv1) (sha1_Sum x) = Some x)"
proof -
  from put_chunk_kv[OF assms(1)] show ?thesis
  proof
    assume a: "kv (drv_chunks drv) (sha1_Sum d) \<noteq> None \<and> kv (drv_chunks drv1) = kv (drv_chunks drv)"
    with assms(2,4) have "kv (drv_chunks drv) (sha1_Sum d) = Some d"
      by (auto simp: agrees_def)
    with a assms(4) show ?thesis
      by simp
  next
    assume a: "kv (drv_chunks drv1) = (kv (drv_chunks drv))(sha1_Sum d \<mapsto> d)"
    have "\<And>x. x \<in> K \<Longrightarrow> sha1_Sum x = sha1_Sum d \<Longrightarrow> x = d"
      using assms(2,3) by (auto dest: inj_onD)
    with a assms(4) show ?thesis
      by (auto simp: agrees_def)
  qed
qed

lemma writeChunks_agrees:
  assumes "writeChunks drv cl ds = (None, drv1, cl1)" and "set ds \<subseteq> K" and "inj_on sha1_Sum K"
    and "agrees K (kv (drv_chunks drv))"
  shows "agrees K (kv (drv_chunks drv1))
         \<and> (\<forall>d\<in>set ds. kv (drv_chunks drv1) (sha1_Sum d) = Some d)
         \<and> (\<forall>x\<in>K. kv (drv_chunks drv) (sha1_Sum x) = Some x
                \<longrightarrow> kv (drv_chunks drv1) (sha1_Sum x) = Some x)"
  using assms
proof (induction ds arbitrary: drv cl)
  case Nil
  then show ?case by simp
next
  case (Cons d ds)
  obtain r drv' where pc: "put_chunk drv d = (r, drv')"
    by (cases "put_chunk drv d") auto
  with Cons.prems(1) have r: "r = None"
    by (cases r) auto
  with Cons.prems(1) pc have w: "writeChunks drv' (cl @ [sha1_Sum d]) ds = (None, drv1, cl1)"
    by simp
  from Cons.prems(2) have dK: "d \<in> K" and dsK: "set ds \<subseteq> K"
    by simp_all
  from put_chunk_agrees[OF pc[unfolded r] dK Cons.prems(3,4)]
  have a: "agrees K (kv (drv_chunks drv'))" and h: "kv (drv_chunks drv') (sha1_Sum d) = Some d"
    and m: "\<forall>x\<in>K. kv (drv_chunks drv) (sha1_Sum x) = Some x
                \<longrightarrow> kv (drv_chunks drv') (sha1_Sum x) = Some x"
    by simp_all
  from Cons.IH[OF w dsK Cons.prems(3) a]
  have a1: "agrees K (kv (drv_chunks drv1))"
    and h1: "\<forall>d\<in>set ds. kv (drv_chunks drv1) (sha1_Sum d) = Some d"
    and m1: "\<forall>x\<in>K. kv (drv_chunks drv') (sha1_Sum x) = Some x
                \<longrightarrow> kv (drv_chunks drv1) (sha1_Sum x) = Some x"
    by simp_all
  from h m1 dK have "kv (drv_chunks drv1) (sha1_Sum d) = Some d"
    by simp
  with a1 h1 m m1 show ?case
    by simp
qed

lemma chunk_record_enc:
  "\<forall>h\<in>set cs. length h = 20 \<Longrightarrow> chunk_record cs = Some (enc_chunks cs)"
  by (simp add: chunk_record_eq enc_chunks_def)

lemma chunk_record_hashes: "chunk_record (map sha1_Sum ds) = Some (enc_chunks (map sha1_Sum ds))"
  by (rule chunk_record_enc) (simp add: length_sha1_Sum)

lemma length_enc_entry: "length h = 20 \<Longrightarrow> length (enc_entry h) = 24"
  by (simp add: enc_entry_def length_le32)

lemma take_entries_enc:
  "\<forall>h\<in>set cs. length h = 20 \<Longrightarrow>
     take_entries (length cs) (concat (map enc_entry cs)) = Some (map ref_of cs)"
proof (induction cs)
  case Nil
  then show ?case by simp
next
  case (Cons h cs)
  then have lh: "length h = 20" by simp
  have u: "Uint32 (enc_entry h @ concat (map enc_entry cs)) = of_nat (length h)"
    by (simp add: enc_entry_def Uint32_le32)
  have t: "take sha1_Size (drop 4 (enc_entry h @ concat (map enc_entry cs))) = h"
    using lh by (simp add: enc_entry_def length_le32 sha1_Size_def)
  have d: "drop (4 + sha1_Size) (enc_entry h @ concat (map enc_entry cs)) = concat (map enc_entry cs)"
    using lh by (simp add: enc_entry_def length_le32 sha1_Size_def)
  have l: "\<not> length (enc_entry h @ concat (map enc_entry cs)) < 4 + sha1_Size"
    using lh by (simp add: enc_entry_def length_le32 sha1_Size_def)
  from Cons have ih: "take_entries (length cs) (concat (map enc_entry cs)) = Some (map ref_of cs)"
    by simp
  have "take_entries (Suc (length cs)) (enc_entry h @ concat (map enc_entry cs))
          = Some (ref_of h # map ref_of cs)"
    unfolding take_entries.simps using l by (simp only: u t d ih if_False) (simp add: ref_of_def)
  then show ?case
    by simp
qed

lemma unat_of_nat_32: "n < 2 ^ 32 \<Longrightarrow> unat (of_nat n :: 32 word) = n"
  by (simp add: unat_of_nat)

lemma decode_record_chunks:
  assumes "\<forall>h\<in>set cs. length h = 20" and "0 < length cs" and "length cs < 2 ^ 32"
  shows "decode_record (enc_chunks cs) = Some (ChunkRefs (map ref_of cs))"
proof -
  have u: "Uint32 (enc_chunks cs) = of_nat (length cs)"
    by (simp add: enc_chunks_def Uint32_le32)
  have n: "unat (of_nat (length cs) :: 32 word) = length cs"
    using assms(3) by (rule unat_of_nat_32)
  with assms(2) have nz: "(of_nat (length cs) :: 32 word) \<noteq> 0"
    by (metis less_numeral_extra(3) unat_0)
  have d: "drop 4 (enc_chunks cs) = concat (map enc_entry cs)"
    by (simp add: enc_chunks_def length_le32)
  have l: "\<not> length (enc_chunks cs) < 4"
    by (simp add: enc_chunks_def length_le32)
  show ?thesis
    unfolding decode_record_def using l nz by (simp add: u n d take_entries_enc[OF assms(1)])
qed

lemma decode_record_inline: "decode_record (le32 0 @ B) = Some (Inline B)"
  by (simp add: decode_record_def Uint32_le32 length_le32)

lemma read_whole_chunks_hashes:
  "\<forall>d\<in>set ds. m (sha1_Sum d) = Some d \<Longrightarrow>
     read_whole_chunks m (map ref_of (map sha1_Sum ds)) = Some (concat ds)"
  by (induction ds) (simp_all add: ref_of_def)

lemma concat_stream_chunks: "concat (stream_chunks B) = B"
  using concat_complete_chunks[of B] by (cases "remainder B = []") (simp_all add: stream_chunks_def)

lemma stream_chunks_short: "length B < chunkSize \<Longrightarrow> stream_chunks B = (if B = [] then [] else [B])"
  by (simp add: stream_chunks_def complete_chunks_short remainder_short)

lemma complete_chunks_nonempty: "chunkSize \<le> length B \<Longrightarrow> complete_chunks B \<noteq> []"
  using split_stream(1)[of B] by simp

lemma put_record_result:
  "put_record drv ident data = (ce, drv2) \<Longrightarrow>
     drv_chunks drv2 = drv_chunks drv
     \<and> new_calls (drv_files drv) (drv_files drv2) = [CallPut (StringToBytes ident) data]
     \<and> ce = outcome (drv_files drv)
     \<and> (ce = None \<longrightarrow> file_record drv2 ident = Some data)
     \<and> (ce \<noteq> None \<longrightarrow> kv (drv_files drv2) = kv (drv_files drv))"
  by (auto simp: put_record_def db_Put_def called_def new_calls_def file_record_def
      split: prod.splits option.splits)

lemma plan'_short:
  assumes "length B < chunkSize"
  shows "plan' drv ident B =
     (case put_record drv ident (le32 0 @ B) of (ce, drv2) \<Rightarrow> (None, ce, drv2))"
proof (cases "B = []")
  case True
  have "chunk_record [] = Some (le32 0)"
    using chunk_record_enc[of "[]"] by (simp add: enc_chunks_def)
  with True show ?thesis
    by (simp add: plan'_def close'_def complete_chunks_short remainder_short chunkSize_pos)
next
  case False
  with assms show ?thesis
    by (simp add: plan'_def close'_def complete_chunks_short remainder_short inline_record_eq)
qed

lemma plan'_long:
  assumes "chunkSize \<le> length B"
  shows "plan' drv ident B =
     (case writeChunks drv [] (complete_chunks B) of
        (Some e, drv1, cl) \<Rightarrow>
          (case put_record drv1 ident (enc_chunks cl) of (ce, drv2) \<Rightarrow> (Some e, ce, drv2))
      | (None, drv1, cl) \<Rightarrow>
          (case writeChunks drv1 cl (if remainder B = [] then [] else [remainder B]) of
             (Some e, drv2, cl2) \<Rightarrow> (None, Some e, drv2)
           | (None, drv2, cl2) \<Rightarrow>
               (case put_record drv2 ident (enc_chunks cl2) of (ce, drv3) \<Rightarrow> (None, ce, drv3))))"
proof -
  obtain we drv1 cl where w: "writeChunks drv [] (complete_chunks B) = (we, drv1, cl)"
    by (cases "writeChunks drv [] (complete_chunks B)") auto
  from writeChunks_result[OF w] obtain k where cl: "cl = map sha1_Sum (take k (complete_chunks B))"
    and full: "we = None \<longrightarrow> cl = map sha1_Sum (complete_chunks B)"
    by auto
  have cr: "chunk_record cl = Some (enc_chunks cl)"
    unfolding cl by (rule chunk_record_hashes)
  show ?thesis
  proof (cases we)
    case (Some e)
    then show ?thesis
      by (simp add: plan'_def close'_def w cr split: prod.splits)
  next
    case None
    with full complete_chunks_nonempty[OF assms] have ne: "cl \<noteq> []"
      by simp
    obtain e2 drv2 cl2 where
      w2: "writeChunks drv1 cl (if remainder B = [] then [] else [remainder B]) = (e2, drv2, cl2)"
      by (cases "writeChunks drv1 cl (if remainder B = [] then [] else [remainder B])") auto
    from writeChunks_result[OF w2] cl obtain j where
      "cl2 = map sha1_Sum (take k (complete_chunks B)
               @ take j (if remainder B = [] then [] else [remainder B]))"
      by auto
    then have cr2: "chunk_record cl2 = Some (enc_chunks cl2)"
      by (simp only: chunk_record_hashes)
    show ?thesis
    proof (cases "remainder B = []")
      case True
      with w2 have "e2 = None" "drv2 = drv1" "cl2 = cl"
        by simp_all
      with None True show ?thesis
        by (simp add: plan'_def close'_def w cr split: prod.splits)
    next
      case False
      with None ne w2 cr2 show ?thesis
        by (cases e2) (simp_all add: plan'_def close'_def w split: prod.splits)
    qed
  qed
qed

lemma drop_concat_entries:
  "\<forall>h\<in>set cs. length h = 20 \<Longrightarrow> i \<le> length cs \<Longrightarrow>
     drop (i * 24) (concat (map enc_entry cs)) = concat (map enc_entry (drop i cs))"
proof (induction cs arbitrary: i)
  case Nil
  then show ?case by simp
next
  case (Cons h cs)
  show ?case
  proof (cases i)
    case 0
    then show ?thesis by simp
  next
    case (Suc j)
    with Cons.prems have "j \<le> length cs" and "length (enc_entry h) = 24"
      by (simp_all add: length_enc_entry)
    with Cons Suc show ?thesis
      by simp
  qed
qed

lemma entry_of_enc:
  assumes "\<forall>h\<in>set cs. length h = 20" and "i < length cs"
  shows "entry_length (enc_chunks cs) i = 20 \<and> entry_hash (enc_chunks cs) i = cs ! i"
proof -
  have d: "drop (4 + i * 24) (enc_chunks cs) = concat (map enc_entry (drop i cs))"
    using drop_concat_entries[OF assms(1), of i] assms(2)
    by (simp add: enc_chunks_def length_le32)
  have c: "drop i cs = cs ! i # drop (Suc i) cs"
    using assms(2) by (simp add: Cons_nth_drop_Suc)
  have l: "length (cs ! i) = 20"
    using assms by simp
  have "entry_length (enc_chunks cs) i = of_nat (length (cs ! i))"
    by (simp add: entry_length_def sha1_Size_def d c enc_entry_def Uint32_le32)
  moreover have "drop (4 + i * 24 + 4) (enc_chunks cs) = drop 4 (drop (4 + i * 24) (enc_chunks cs))"
    by (simp add: add.commute)
  then have "entry_hash (enc_chunks cs) i = cs ! i"
    using l by (simp add: entry_hash_def sha1_Size_def d c enc_entry_def length_le32)
  ultimately show ?thesis
    using l by simp
qed

lemma Uint32_enc_chunks: "Uint32 (enc_chunks cs) = of_nat (length cs)"
  by (simp add: enc_chunks_def Uint32_le32)

lemma unat_of_nat_le: "unat (of_nat n :: 32 word) \<le> n"
  by (simp add: unat_of_nat)

lemma plan'_long_success:
  assumes "chunkSize \<le> length B" and "plan' drv ident B = (None, None, drv2)"
  shows "\<exists>drv1. writeChunks drv [] (stream_chunks B) = (None, drv1, map sha1_Sum (stream_chunks B))
           \<and> put_record drv1 ident (enc_chunks (map sha1_Sum (stream_chunks B))) = (None, drv2)"
proof -
  let ?rest = "if remainder B = [] then [] else [remainder B]"
  obtain we drv1 cl where w: "writeChunks drv [] (complete_chunks B) = (we, drv1, cl)"
    by (cases "writeChunks drv [] (complete_chunks B)") auto
  obtain e2 drv1' cl2 where w2: "writeChunks drv1 cl ?rest = (e2, drv1', cl2)"
    by (cases "writeChunks drv1 cl ?rest") auto
  from assms(2) w have we: "we = None"
    unfolding plan'_long[OF assms(1)] by (cases we) (auto split: prod.splits)
  with assms(2) w w2 have e2: "e2 = None"
    unfolding plan'_long[OF assms(1)] by (cases e2) (auto split: prod.splits)
  from assms(2) w w2 we e2 have pr: "put_record drv1' ident (enc_chunks cl2) = (None, drv2)"
    unfolding plan'_long[OF assms(1)] by (auto split: prod.splits)
  have all: "writeChunks drv [] (stream_chunks B) = (None, drv1', cl2)"
    unfolding stream_chunks_def writeChunks_append using w w2 we e2 by simp
  from writeChunks_result[OF all] have "cl2 = map sha1_Sum (stream_chunks B)"
    by simp
  with all pr show ?thesis
    by auto
qed

lemma plan'_record:
  assumes "plan' drv ident B = (we, None, drv2)"
  shows "\<exists>data. file_record drv2 ident = Some data
           \<and> (data = le32 0 @ B \<or> (\<exists>ds. data = enc_chunks (map sha1_Sum ds)))"
proof (cases "length B < chunkSize")
  case True
  from assms obtain "put_record drv ident (le32 0 @ B) = (None, drv2)"
    unfolding plan'_short[OF True] by (auto split: prod.splits)
  from put_record_result[OF this] show ?thesis
    by simp
next
  case False
  then have ge: "chunkSize \<le> length B" by simp
  let ?rest = "if remainder B = [] then [] else [remainder B]"
  obtain e1 drv1 cl where w: "writeChunks drv [] (complete_chunks B) = (e1, drv1, cl)"
    by (cases "writeChunks drv [] (complete_chunks B)") auto
  obtain e2 drv1' cl2 where w2: "writeChunks drv1 cl ?rest = (e2, drv1', cl2)"
    by (cases "writeChunks drv1 cl ?rest") auto
  from writeChunks_result[OF w] obtain k where cl: "cl = map sha1_Sum (take k (complete_chunks B))"
    by auto
  from writeChunks_result[OF w2] cl obtain j where
    cl2: "cl2 = map sha1_Sum (take k (complete_chunks B) @ take j ?rest)"
    by auto
  show ?thesis
  proof (cases e1)
    case (Some e)
    with assms w have "put_record drv1 ident (enc_chunks cl) = (None, drv2)"
      unfolding plan'_long[OF ge] by (auto split: prod.splits)
    from put_record_result[OF this] have "file_record drv2 ident = Some (enc_chunks cl)"
      by simp
    with cl show ?thesis
      by blast
  next
    case None
    with assms w w2 have "e2 = None"
      unfolding plan'_long[OF ge] by (cases e2) (auto split: prod.splits)
    with assms w w2 None have "put_record drv1' ident (enc_chunks cl2) = (None, drv2)"
      unfolding plan'_long[OF ge] by (auto split: prod.splits)
    from put_record_result[OF this] have "file_record drv2 ident = Some (enc_chunks cl2)"
      by simp
    with cl2 show ?thesis
      by blast
  qed
qed

lemma inline_roundtrip':
  assumes "session' drv ident ps = Some (None, None, drv2)" and "length (concat ps) < chunkSize"
  shows "file_record drv2 ident = Some (le32 0 @ concat ps)"
proof -
  from assms(1) have "plan' drv ident (concat ps) = (None, None, drv2)"
    by (simp add: session'_plan')
  then have "put_record drv ident (le32 0 @ concat ps) = (None, drv2)"
    unfolding plan'_short[OF assms(2)] by (auto split: prod.splits)
  from put_record_result[OF this] show ?thesis
    by simp
qed

lemma chunked_record':
  assumes "session' drv ident ps = Some (None, None, drv2)" and "chunkSize \<le> length (concat ps)"
  shows "file_record drv2 ident = Some (enc_chunks (map sha1_Sum (stream_chunks (concat ps))))"
proof -
  from assms(1) have "plan' drv ident (concat ps) = (None, None, drv2)"
    by (simp add: session'_plan')
  from plan'_long_success[OF assms(2) this] put_record_result show ?thesis
    by blast
qed

lemma roundtrip':
  assumes s: "session' drv ident ps = Some (None, None, drv2)"
    and a: "agrees (set (stream_chunks (concat ps))) (kv (drv_chunks drv))"
    and i: "inj_on sha1_Sum (set (stream_chunks (concat ps)))"
    and n: "length (stream_chunks (concat ps)) < 2 ^ 32"
  shows "read_file_whole drv2 ident = Some (concat ps)"
proof (cases "length (concat ps) < chunkSize")
  case True
  from inline_roundtrip'[OF s True] show ?thesis
    by (simp add: read_file_whole_def file_record_def decode_record_inline)
next
  case False
  define B where "B = concat ps"
  from False have ge: "chunkSize \<le> length B" by (simp add: B_def)
  from s have "plan' drv ident B = (None, None, drv2)"
    by (simp add: session'_plan' B_def)
  from plan'_long_success[OF ge this] obtain drv1 where
    w: "writeChunks drv [] (stream_chunks B) = (None, drv1, map sha1_Sum (stream_chunks B))"
    and pr: "put_record drv1 ident (enc_chunks (map sha1_Sum (stream_chunks B))) = (None, drv2)"
    by blast
  from writeChunks_agrees[OF w subset_refl i[folded B_def] a[folded B_def]]
  have h: "\<forall>d\<in>set (stream_chunks B). kv (drv_chunks drv1) (sha1_Sum d) = Some d"
    by simp
  from put_record_result[OF pr] have c: "drv_chunks drv2 = drv_chunks drv1"
    and r: "file_record drv2 ident = Some (enc_chunks (map sha1_Sum (stream_chunks B)))"
    by simp_all
  have ne: "0 < length (map sha1_Sum (stream_chunks B))"
    using complete_chunks_nonempty[OF ge] by (simp add: stream_chunks_def)
  have dec: "decode_record (enc_chunks (map sha1_Sum (stream_chunks B)))
               = Some (ChunkRefs (map ref_of (map sha1_Sum (stream_chunks B))))"
    using ne n by (intro decode_record_chunks) (simp_all add: length_sha1_Sum B_def)
  have "read_file_whole drv2 ident = Some (concat (stream_chunks B))"
    using r dec read_whole_chunks_hashes[OF h]
    by (simp add: read_file_whole_def file_record_def c)
  then show ?thesis
    by (simp add: concat_stream_chunks B_def)
qed

subsection \<open>The batching writer and the chunk space\<close>

lemma apply_batch_snoc: "apply_batch (b @ [(k, v)]) m = (apply_batch b m)(k \<mapsto> v)"
  by (simp add: apply_batch_def)

lemma apply_batch_Nil [simp]: "apply_batch [] m = m"
  by (simp add: apply_batch_def)

lemma apply_batch_keeps: "m k \<noteq> None \<Longrightarrow> apply_batch b m k \<noteq> None"
proof (induction b arbitrary: m)
  case Nil
  then show ?case by simp
next
  case (Cons x b)
  obtain k' v' where x: "x = (k', v')" by (cases x)
  have "apply_batch (x # b) m = apply_batch b (m(k' \<mapsto> v'))"
    by (simp add: apply_batch_def x)
  moreover have "(m(k' \<mapsto> v')) k \<noteq> None"
    using Cons.prems by simp
  ultimately show ?case
    using Cons.IH by simp
qed

lemma flushBatch_result:
  "flushBatch drv f = (e, drv1, f1) \<Longrightarrow>
     f1 = f\<lparr>batchSize := 0, batch := []\<rparr> \<and> drv_files drv1 = drv_files drv
     \<and> e = outcome (drv_chunks drv)
     \<and> (e = None \<longrightarrow> kv (drv_chunks drv1) = view f drv)
     \<and> (e \<noteq> None \<longrightarrow> kv (drv_chunks drv1) = kv (drv_chunks drv))
     \<and> script (drv_chunks drv1) = tl (script (drv_chunks drv))"
  by (auto simp: flushBatch_def db_Write_def called_def view_def split: prod.splits option.splits)

lemma WriteChunk_view:
  assumes "WriteChunk drv f d = (None, drv1, f1)"
  shows "(kv (drv_chunks drv) (sha1_Sum d) \<noteq> None \<and> view f1 drv1 = view f drv)
         \<or> view f1 drv1 = (view f drv)(sha1_Sum d \<mapsto> d)"
proof -
  obtain ch err cdb where g: "db_Get (drv_chunks drv) (sha1_Sum d) = ((ch, err), cdb)"
    by (cases "db_Get (drv_chunks drv) (sha1_Sum d)") auto
  then have kvc: "kv cdb = kv (drv_chunks drv)"
    by (auto simp: db_Get_def called_def split: option.splits)
  show ?thesis
  proof (cases err)
    case None
    with g have "kv (drv_chunks drv) (sha1_Sum d) \<noteq> None"
      by (auto simp: db_Get_def split: option.splits)
    moreover from assms g None have "view f1 drv1 = view f drv"
      by (auto simp: WriteChunk_def Let_def view_def kvc split: if_splits)
    ultimately show ?thesis
      by simp
  next
    case (Some e)
    define f2 where "f2 = f\<lparr>chunks := chunks f @ [sha1_Sum d],
        batch := batch f @ [(sha1_Sum d, d)], batchSize := batchSize f + length d\<rparr>"
    define drv' where "drv' = drv\<lparr>drv_chunks := cdb\<rparr>"
    have v2: "view f2 drv' = (view f drv)(sha1_Sum d \<mapsto> d)"
      by (simp add: view_def f2_def drv'_def kvc apply_batch_snoc)
    show ?thesis
    proof (cases "maxBatchSize \<le> batchSize f2")
      case True
      with assms g Some have fb: "flushBatch drv' f2 = (None, drv1, f1)"
        by (simp add: WriteChunk_def Let_def f2_def drv'_def)
      from flushBatch_result[OF fb] have "kv (drv_chunks drv1) = view f2 drv'" and "batch f1 = []"
        by simp_all
      then have "view f1 drv1 = view f2 drv'"
        by (simp add: view_def)
      with v2 show ?thesis
        by simp
    next
      case False
      with assms g Some have "drv1 = drv'" and "f1 = f2"
        by (simp_all add: WriteChunk_def Let_def f2_def drv'_def)
      with v2 show ?thesis
        by simp
    qed
  qed
qed

lemma view_keeps: "kv (drv_chunks drv) k \<noteq> None \<Longrightarrow> view f drv k \<noteq> None"
  unfolding view_def by (rule apply_batch_keeps)

lemma WriteChunk_agrees:
  assumes "WriteChunk drv f d = (None, drv1, f1)" and "d \<in> K" and "inj_on sha1_Sum K"
    and "agrees K (view f drv)"
  shows "agrees K (view f1 drv1) \<and> view f1 drv1 (sha1_Sum d) = Some d
         \<and> (\<forall>x\<in>K. view f drv (sha1_Sum x) = Some x \<longrightarrow> view f1 drv1 (sha1_Sum x) = Some x)"
proof -
  from WriteChunk_view[OF assms(1)] show ?thesis
  proof
    assume a: "kv (drv_chunks drv) (sha1_Sum d) \<noteq> None \<and> view f1 drv1 = view f drv"
    then have "view f drv (sha1_Sum d) \<noteq> None"
      by (simp add: view_keeps)
    with assms(2,4) have "view f drv (sha1_Sum d) = Some d"
      by (auto simp: agrees_def)
    with a assms(4) show ?thesis
      by simp
  next
    assume a: "view f1 drv1 = (view f drv)(sha1_Sum d \<mapsto> d)"
    have "\<And>x. x \<in> K \<Longrightarrow> sha1_Sum x = sha1_Sum d \<Longrightarrow> x = d"
      using assms(2,3) by (auto dest: inj_onD)
    with a assms(4) show ?thesis
      by (auto simp: agrees_def)
  qed
qed

lemma WriteChunks_agrees:
  assumes "WriteChunks drv f ds = (None, drv1, f1)" and "set ds \<subseteq> K" and "inj_on sha1_Sum K"
    and "agrees K (view f drv)"
  shows "agrees K (view f1 drv1)
         \<and> (\<forall>d\<in>set ds. view f1 drv1 (sha1_Sum d) = Some d)
         \<and> (\<forall>x\<in>K. view f drv (sha1_Sum x) = Some x \<longrightarrow> view f1 drv1 (sha1_Sum x) = Some x)"
  using assms
proof (induction ds arbitrary: drv f)
  case Nil
  then show ?case by simp
next
  case (Cons d ds)
  obtain r drv' f' where wc: "WriteChunk drv f d = (r, drv', f')"
    by (cases "WriteChunk drv f d") auto
  with Cons.prems(1) have r: "r = None"
    by (cases r) auto
  with Cons.prems(1) wc have w: "WriteChunks drv' f' ds = (None, drv1, f1)"
    by simp
  from Cons.prems(2) have dK: "d \<in> K" and dsK: "set ds \<subseteq> K"
    by simp_all
  from WriteChunk_agrees[OF wc[unfolded r] dK Cons.prems(3,4)]
  have a: "agrees K (view f' drv')" and h: "view f' drv' (sha1_Sum d) = Some d"
    and m: "\<forall>x\<in>K. view f drv (sha1_Sum x) = Some x \<longrightarrow> view f' drv' (sha1_Sum x) = Some x"
    by simp_all
  from Cons.IH[OF w dsK Cons.prems(3) a]
  have a1: "agrees K (view f1 drv1)"
    and h1: "\<forall>d\<in>set ds. view f1 drv1 (sha1_Sum d) = Some d"
    and m1: "\<forall>x\<in>K. view f' drv' (sha1_Sum x) = Some x \<longrightarrow> view f1 drv1 (sha1_Sum x) = Some x"
    by simp_all
  from h m1 dK have "view f1 drv1 (sha1_Sum d) = Some d"
    by simp
  with a1 h1 m m1 show ?case
    by simp
qed

lemma WriteChunks_chunks:
  "WriteChunks drv f ds = (e, drv1, f1) \<Longrightarrow>
     (\<exists>k\<le>length ds. chunks f1 = chunks f @ map sha1_Sum (take k ds))
     \<and> (e = None \<longrightarrow> chunks f1 = chunks f @ map sha1_Sum ds)"
proof (induction ds arbitrary: drv f)
  case Nil
  then show ?case by simp
next
  case (Cons d ds)
  obtain r drv' f' where wc: "WriteChunk drv f d = (r, drv', f')"
    by (cases "WriteChunk drv f d") auto
  from WriteChunk_fields[OF wc] have c: "chunks f' = chunks f @ [sha1_Sum d]"
    by simp
  show ?case
  proof (cases r)
    case (Some err)
    with Cons.prems wc have "f1 = f'" and "e = Some err"
      by simp_all
    with c have "Suc 0 \<le> length (d # ds) \<and> chunks f1 = chunks f @ map sha1_Sum (take (Suc 0) (d # ds))"
      by simp
    then have "\<exists>k\<le>length (d # ds). chunks f1 = chunks f @ map sha1_Sum (take k (d # ds))"
      by blast
    with \<open>e = Some err\<close> show ?thesis
      by simp
  next
    case None
    with Cons.prems wc have "WriteChunks drv' f' ds = (e, drv1, f1)"
      by simp
    from Cons.IH[OF this] obtain k where k: "k \<le> length ds"
      "chunks f1 = chunks f' @ map sha1_Sum (take k ds)"
      and ok: "e = None \<longrightarrow> chunks f1 = chunks f' @ map sha1_Sum ds"
      by auto
    from k c have "Suc k \<le> length (d # ds) \<and> chunks f1 = chunks f @ map sha1_Sum (take (Suc k) (d # ds))"
      by simp
    then have "\<exists>k\<le>length (d # ds). chunks f1 = chunks f @ map sha1_Sum (take k (d # ds))"
      by blast
    with ok c show ?thesis
      by simp
  qed
qed

lemma newWFile_clean:
  assumes "pool_clean pool"
  shows "newWFile pool ident = (tl pool, fresh_wfile ident)"
proof (cases pool)
  case Nil
  then show ?thesis
    by (simp add: newWFile_def pool_Get_def fresh_wfile_def)
next
  case (Cons w rest)
  with assms have "batch w = []" and "batchSize w = 0"
    by (simp_all add: pool_clean_def)
  then have "Chunker_Reset (w\<lparr>file_id := ident, chunks := []\<rparr>) = fresh_wfile ident"
    by (cases w) (simp add: Chunker_Reset_def fresh_wfile_def)
  with Cons show ?thesis
    by (simp add: newWFile_def pool_Get_def)
qed

lemma WriteChunks_single: "WriteChunks drv f [d] = WriteChunk drv f d"
  by (cases "WriteChunk drv f d" rule: prod_cases3) (auto split: option.splits)

lemma Close_eq:
  "Close drv pool f =
     (if pending f \<noteq> [] \<and> chunks f = [] then
        (case put_record drv (file_id f) (le32 0 @ pending f) of
           (err, drv1) \<Rightarrow> (err, drv1, f # pool, f))
      else
        (case WriteChunks drv (f\<lparr>pending := []\<rparr>) (if pending f = [] then [] else [pending f]) of
           (Some e, drv1, f1) \<Rightarrow> (Some e, drv1, pool, f1)
         | (None, drv1, f1) \<Rightarrow>
             (case flushBatch drv1 f1 of
                (Some e, drv2, f2) \<Rightarrow> (Some e, drv2, pool, f2)
              | (None, drv2, f2) \<Rightarrow>
                  (case chunk_record (chunks f2) of
                     None \<Rightarrow> (Some RuntimePanic, drv2, pool, f2)
                   | Some data \<Rightarrow>
                       (case put_record drv2 (file_id f2) data of
                          (err, drv3) \<Rightarrow> (err, drv3, f2 # pool, f2))))))"
proof (cases "pending f = []")
  case True
  then have eq: "f\<lparr>pending := []\<rparr> = f"
    by (cases f) simp
  show ?thesis
    unfolding Close_def Chunker_Remaining_def pool_Put_def eq using True by simp
next
  case False
  then show ?thesis
    unfolding Close_def Chunker_Remaining_def Chunker_Flush_def pool_Put_def
    by (simp add: inline_record_eq WriteChunks_single del: WriteChunks.simps)
qed

lemma fresh_pending [simp]: "(fresh_wfile ident)\<lparr>pending := []\<rparr> = fresh_wfile ident"
  by (simp add: fresh_wfile_def)

lemma session_eq:
  assumes "pool_clean pool"
  shows "session drv pool ident ps =
     (case WriteChunks drv (fresh_wfile ident) (complete_chunks (concat ps)) of
        (Some e, drv1, f1) \<Rightarrow>
          (case Close drv1 (tl pool) f1 of (ce, drv2, pool2, f2) \<Rightarrow> (Some e, ce, drv2, pool2))
      | (None, drv1, f1) \<Rightarrow>
          (case Close drv1 (tl pool) (f1\<lparr>pending := remainder (concat ps)\<rparr>) of
             (ce, drv2, pool2, f2) \<Rightarrow> (None, ce, drv2, pool2)))"
proof -
  have l: "length (pending (fresh_wfile ident)) < chunkSize"
    using chunkSize_pos by (simp add: fresh_wfile_def)
  have p: "pending (fresh_wfile ident) = []"
    by (simp add: fresh_wfile_def)
  have "Writes drv (fresh_wfile ident) ps =
      (case WriteChunks drv (fresh_wfile ident) (complete_chunks (concat ps)) of
         (None, drv1, f1) \<Rightarrow> (None, drv1, f1\<lparr>pending := remainder (concat ps)\<rparr>)
       | (Some e, drv1, f1) \<Rightarrow> (Some e, drv1, f1))"
    using Chunker_Write_chunks[OF l, of drv "concat ps"]
    unfolding Writes_concat[OF l] p append_Nil fresh_pending .
  then show ?thesis
    by (cases "WriteChunks drv (fresh_wfile ident) (complete_chunks (concat ps))"
        rule: prod_cases3)
       (auto simp: session_def newWFile_clean[OF assms] split: option.splits)
qed

lemma session_short:
  assumes "pool_clean pool" and "length (concat ps) < chunkSize" and "concat ps \<noteq> []"
  shows "session drv pool ident ps =
     (case put_record drv ident (le32 0 @ concat ps) of
        (ce, drv2) \<Rightarrow> (None, ce, drv2, (fresh_wfile ident)\<lparr>pending := concat ps\<rparr> # tl pool))"
  using assms(2,3)
  by (simp add: session_eq[OF assms(1)] complete_chunks_short remainder_short Close_eq)
     (simp add: fresh_wfile_def split: prod.splits)

lemma session_empty:
  assumes "pool_clean pool" and "concat ps = []"
  shows "session drv pool ident ps =
     (case flushBatch drv (fresh_wfile ident) of
        (Some e, drv1, f1) \<Rightarrow> (None, Some e, drv1, tl pool)
      | (None, drv1, f1) \<Rightarrow>
          (case put_record drv1 ident (le32 0) of
             (ce, drv2) \<Rightarrow> (None, ce, drv2, fresh_wfile ident # tl pool)))"
proof -
  have cr: "chunk_record [] = Some (le32 0)"
    using chunk_record_enc[of "[]"] by (simp add: enc_chunks_def)
  obtain e drv1 g where fb: "flushBatch drv (fresh_wfile ident) = (e, drv1, g)"
    by (cases "flushBatch drv (fresh_wfile ident)") auto
  from flushBatch_result[OF fb] have g: "g = fresh_wfile ident"
    by (simp add: fresh_wfile_def)
  have "length (concat ps) < chunkSize"
    unfolding assms(2) using chunkSize_pos by simp
  then have c: "complete_chunks (concat ps) = []" "remainder (concat ps) = []"
    unfolding assms(2) by (simp_all only: complete_chunks_short remainder_short)
  have pf: "pending (fresh_wfile ident) = []" "chunks (fresh_wfile ident) = []"
    "file_id (fresh_wfile ident) = ident"
    by (simp_all add: fresh_wfile_def)
  have "Close drv (tl pool) (fresh_wfile ident) =
      (case e of
         Some err \<Rightarrow> (Some err, drv1, tl pool, fresh_wfile ident)
       | None \<Rightarrow>
          (case put_record drv1 ident (le32 0) of
             (ce, drv2) \<Rightarrow> (ce, drv2, fresh_wfile ident # tl pool, fresh_wfile ident)))"
    unfolding Close_eq pf fresh_pending using fb g by (cases e) (simp_all add: cr pf)
  then show ?thesis
    unfolding session_eq[OF assms(1)] c using fb
    by (cases e) (simp_all add: fresh_pending split: prod.splits)
qed

lemma session_long_success:
  assumes pc: "pool_clean pool" and ge: "chunkSize \<le> length (concat ps)"
    and s: "session drv pool ident ps = (None, None, drv3, pool3)"
  shows "\<exists>drv1 f1 drv2 f2.
           WriteChunks drv (fresh_wfile ident) (stream_chunks (concat ps)) = (None, drv1, f1)
           \<and> flushBatch drv1 f1 = (None, drv2, f2)
           \<and> put_record drv2 ident (enc_chunks (map sha1_Sum (stream_chunks (concat ps)))) = (None, drv3)"
proof -
  define B where "B = concat ps"
  let ?rest = "if remainder B = [] then [] else [remainder B]"
  obtain we drv1 f1 where w: "WriteChunks drv (fresh_wfile ident) (complete_chunks B) = (we, drv1, f1)"
    by (cases "WriteChunks drv (fresh_wfile ident) (complete_chunks B)") auto
  from s w have we: "we = None"
    unfolding session_eq[OF pc] B_def[symmetric] by (cases we) (auto split: prod.splits)
  from WriteChunks_chunks[OF w] we have c1: "chunks f1 = map sha1_Sum (complete_chunks B)"
    by (simp add: fresh_wfile_def)
  from WriteChunks_fields[OF w] have p1: "pending f1 = []" and id1: "file_id f1 = ident"
    by (simp_all add: fresh_wfile_def)
  then have f1: "f1\<lparr>pending := []\<rparr> = f1"
    by (cases f1) simp
  have ne: "chunks f1 \<noteq> []"
    using c1 complete_chunks_nonempty[OF ge[folded B_def]] by simp
  define g where "g = f1\<lparr>pending := remainder B\<rparr>"
  have g: "pending g = remainder B" "chunks g = chunks f1" "g\<lparr>pending := []\<rparr> = f1"
    using f1 by (simp_all add: g_def)
  from s w we have cl: "Close drv1 (tl pool) g = (None, drv3, pool3, snd (snd (snd (Close drv1 (tl pool) g))))"
    unfolding session_eq[OF pc] B_def[symmetric] g_def by (auto split: prod.splits)
  obtain e2 drv1' f1' where w2: "WriteChunks drv1 f1 ?rest = (e2, drv1', f1')"
    by (cases "WriteChunks drv1 f1 ?rest") auto
  from cl w2 ne have e2: "e2 = None"
    unfolding Close_eq g by (cases e2) (auto split: prod.splits)
  obtain e3 drv2 f2 where fb: "flushBatch drv1' f1' = (e3, drv2, f2)"
    by (cases "flushBatch drv1' f1'") auto
  from cl w2 ne e2 fb have e3: "e3 = None"
    unfolding Close_eq g by (cases e3) (auto split: prod.splits)
  have all: "WriteChunks drv (fresh_wfile ident) (stream_chunks B) = (None, drv1', f1')"
    unfolding stream_chunks_def WriteChunks_append using w w2 we e2 by simp
  from WriteChunks_chunks[OF all] have c2: "chunks f1' = map sha1_Sum (stream_chunks B)"
    by (simp add: fresh_wfile_def)
  from WriteChunks_fields[OF all] have id2: "file_id f1' = ident"
    by (simp add: fresh_wfile_def)
  from flushBatch_fields[OF fb] c2 id2 have c3: "chunks f2 = map sha1_Sum (stream_chunks B)"
    and id3: "file_id f2 = ident"
    by simp_all
  from cl w2 ne e2 fb e3 have "put_record drv2 ident (enc_chunks (map sha1_Sum (stream_chunks B))) = (None, drv3)"
    unfolding Close_eq g by (auto simp: c3 id3 chunk_record_hashes split: prod.splits)
  with all fb e3 show ?thesis
    unfolding B_def by blast
qed

lemma Close_record:
  assumes c: "Close drv pool f = (None, drv3, pool3, f3)" and h: "chunks f = map sha1_Sum ds"
  shows "\<exists>data. file_record drv3 (file_id f) = Some data
           \<and> ((data = le32 0 @ pending f \<and> chunks f = [] \<and> pending f \<noteq> [])
               \<or> (\<exists>xs. data = enc_chunks (map sha1_Sum xs)))"
proof (cases "pending f \<noteq> [] \<and> chunks f = []")
  case True
  with c have "put_record drv (file_id f) (le32 0 @ pending f) = (None, drv3)"
    unfolding Close_eq by (auto split: prod.splits)
  from put_record_result[OF this] True show ?thesis
    by simp
next
  case False
  let ?rest = "if pending f = [] then [] else [pending f]"
  obtain e1 drv1 f1 where w: "WriteChunks drv (f\<lparr>pending := []\<rparr>) ?rest = (e1, drv1, f1)"
    by (cases "WriteChunks drv (f\<lparr>pending := []\<rparr>) ?rest") auto
  from c False w have e1: "e1 = None"
    unfolding Close_eq by (cases e1) (auto split: prod.splits)
  obtain e2 drv2 f2 where fb: "flushBatch drv1 f1 = (e2, drv2, f2)"
    by (cases "flushBatch drv1 f1") auto
  from c False w e1 fb have e2: "e2 = None"
    unfolding Close_eq by (cases e2) (auto split: prod.splits)
  from WriteChunks_chunks[OF w] e1 h have c1: "chunks f1 = map sha1_Sum (ds @ ?rest)"
    by simp
  from WriteChunks_fields[OF w] have id1: "file_id f1 = file_id f"
    by simp
  from flushBatch_fields[OF fb] c1 id1 have c2: "chunks f2 = map sha1_Sum (ds @ ?rest)"
    and id2: "file_id f2 = file_id f"
    by simp_all
  have cr: "chunk_record (chunks f2) = Some (enc_chunks (map sha1_Sum (ds @ ?rest)))"
    unfolding c2 by (rule chunk_record_hashes)
  from c False w e1 fb e2 have "put_record drv2 (file_id f) (enc_chunks (map sha1_Sum (ds @ ?rest))) = (None, drv3)"
    unfolding Close_eq by (auto simp: cr id2 split: prod.splits)
  from put_record_result[OF this]
  have "file_record drv3 (file_id f) = Some (enc_chunks (map sha1_Sum (ds @ ?rest)))"
    by simp
  then show ?thesis
    by blast
qed

lemma complete_chunks_empty_iff: "complete_chunks B = [] \<longleftrightarrow> length B < chunkSize"
  using complete_chunks_nonempty[of B] complete_chunks_short[of B] by (cases "length B < chunkSize") auto

lemma session_record:
  assumes pc: "pool_clean pool" and s: "session drv pool ident ps = (we, None, drv3, pool3)"
  shows "\<exists>data. file_record drv3 ident = Some data
           \<and> ((data = le32 0 @ concat ps \<and> length (concat ps) < chunkSize)
               \<or> (\<exists>xs. data = enc_chunks (map sha1_Sum xs)))"
proof -
  define B where "B = concat ps"
  obtain e1 drv1 f1 where w: "WriteChunks drv (fresh_wfile ident) (complete_chunks B) = (e1, drv1, f1)"
    by (cases "WriteChunks drv (fresh_wfile ident) (complete_chunks B)") auto
  from WriteChunks_chunks[OF w] obtain k where
    c1: "chunks f1 = map sha1_Sum (take k (complete_chunks B))"
    and full: "e1 = None \<longrightarrow> chunks f1 = map sha1_Sum (complete_chunks B)"
    by (auto simp: fresh_wfile_def)
  from WriteChunks_fields[OF w] have id1: "file_id f1 = ident" and p1: "pending f1 = []"
    by (simp_all add: fresh_wfile_def)
  show ?thesis
  proof (cases e1)
    case (Some e)
    with s w obtain f3 where "Close drv1 (tl pool) f1 = (None, drv3, pool3, f3)"
      unfolding session_eq[OF pc] B_def[symmetric] by (auto split: prod.splits)
    from Close_record[OF this c1] p1 id1 show ?thesis
      by auto
  next
    case None
    define g where "g = f1\<lparr>pending := remainder B\<rparr>"
    have g: "chunks g = map sha1_Sum (complete_chunks B)" "file_id g = ident" "pending g = remainder B"
      using full None id1 by (simp_all add: g_def)
    from s w None obtain f3 where "Close drv1 (tl pool) g = (None, drv3, pool3, f3)"
      unfolding session_eq[OF pc] B_def[symmetric] g_def by (auto split: prod.splits)
    from Close_record[OF this g(1)] obtain data where
      d: "file_record drv3 ident = Some data"
      and alt: "(data = le32 0 @ remainder B \<and> complete_chunks B = [] \<and> remainder B \<noteq> [])
               \<or> (\<exists>xs. data = enc_chunks (map sha1_Sum xs))"
      by (auto simp: g)
    from alt show ?thesis
    proof
      assume a: "data = le32 0 @ remainder B \<and> complete_chunks B = [] \<and> remainder B \<noteq> []"
      then have "length B < chunkSize"
        by (simp add: complete_chunks_empty_iff)
      with a d show ?thesis
        by (simp add: remainder_short B_def)
    next
      assume "\<exists>xs. data = enc_chunks (map sha1_Sum xs)"
      with d show ?thesis
        by blast
    qed
  qed
qed

lemma session_short_record:
  assumes pc: "pool_clean pool" and sh: "length (concat ps) < chunkSize"
    and s: "session drv pool ident ps = (we, None, drv3, pool3)"
  shows "we = None \<and> file_record drv3 ident = Some (le32 0 @ concat ps)"
proof (cases "concat ps = []")
  case True
  obtain e drv1 g where fb: "flushBatch drv (fresh_wfile ident) = (e, drv1, g)"
    by (cases "flushBatch drv (fresh_wfile ident)") auto
  from s fb have e: "e = None" and we: "we = None"
    unfolding session_empty[OF pc True] by (cases e; auto split: prod.splits)+
  with s fb have "put_record drv1 ident (le32 0) = (None, drv3)"
    unfolding session_empty[OF pc True] by (auto split: prod.splits)
  from put_record_result[OF this] we True show ?thesis
    by simp
next
  case False
  from s have we: "we = None" and "put_record drv ident (le32 0 @ concat ps) = (None, drv3)"
    unfolding session_short[OF pc sh False] by (auto split: prod.splits)
  from put_record_result[OF this(2)] we show ?thesis
    by simp
qed

lemma chunked_record:
  assumes "pool_clean pool" and "session drv pool ident ps = (None, None, drv3, pool3)"
    and "chunkSize \<le> length (concat ps)"
  shows "file_record drv3 ident = Some (enc_chunks (map sha1_Sum (stream_chunks (concat ps))))"
  using session_long_success[OF assms(1,3,2)] put_record_result by blast

lemma roundtrip:
  assumes pc: "pool_clean pool"
    and s: "session drv pool ident ps = (None, None, drv3, pool3)"
    and a: "agrees (set (stream_chunks (concat ps))) (kv (drv_chunks drv))"
    and i: "inj_on sha1_Sum (set (stream_chunks (concat ps)))"
    and n: "length (stream_chunks (concat ps)) < 2 ^ 32"
  shows "read_file_whole drv3 ident = Some (concat ps)"
proof (cases "length (concat ps) < chunkSize")
  case True
  from session_short_record[OF pc True s] show ?thesis
    by (simp add: read_file_whole_def file_record_def decode_record_inline)
next
  case False
  define B where "B = concat ps"
  from False have ge: "chunkSize \<le> length (concat ps)" by simp
  from session_long_success[OF pc ge s] obtain drv1 f1 drv2 f2 where
    w: "WriteChunks drv (fresh_wfile ident) (stream_chunks B) = (None, drv1, f1)"
    and fb: "flushBatch drv1 f1 = (None, drv2, f2)"
    and pr: "put_record drv2 ident (enc_chunks (map sha1_Sum (stream_chunks B))) = (None, drv3)"
    unfolding B_def by blast
  have v0: "view (fresh_wfile ident) drv = kv (drv_chunks drv)"
    by (simp add: view_def fresh_wfile_def)
  from WriteChunks_agrees[OF w subset_refl i[folded B_def]] a
  have "\<forall>d\<in>set (stream_chunks B). view f1 drv1 (sha1_Sum d) = Some d"
    by (simp add: v0 B_def)
  moreover from flushBatch_result[OF fb] have "kv (drv_chunks drv2) = view f1 drv1"
    by simp
  ultimately have h: "\<forall>d\<in>set (stream_chunks B). kv (drv_chunks drv2) (sha1_Sum d) = Some d"
    by simp
  from put_record_result[OF pr] have c: "drv_chunks drv3 = drv_chunks drv2"
    and r: "file_record drv3 ident = Some (enc_chunks (map sha1_Sum (stream_chunks B)))"
    by simp_all
  have ne: "0 < length (map sha1_Sum (stream_chunks B))"
    using complete_chunks_nonempty[OF ge] by (simp add: stream_chunks_def B_def)
  have dec: "decode_record (enc_chunks (map sha1_Sum (stream_chunks B)))
               = Some (ChunkRefs (map ref_of (map sha1_Sum (stream_chunks B))))"
    using ne n by (intro decode_record_chunks) (simp_all add: length_sha1_Sum B_def)
  have "read_file_whole drv3 ident = Some (concat (stream_chunks B))"
    using r dec read_whole_chunks_hashes[OF h]
    by (simp add: read_file_whole_def file_record_def c)
  then show ?thesis
    by (simp add: concat_stream_chunks B_def)
qed

subsection \<open>Sessions against an engine that reports no failure\<close>

lemma put_record_reliable:
  "script (drv_files drv) = [] \<Longrightarrow> \<exists>drv2. put_record drv ident data = (None, drv2)"
  by (simp add: put_record_def db_Put_def outcome_def)

lemma session'_reliable:
  assumes "reliable drv"
  shows "\<exists>drv2. session' drv ident ps = Some (None, None, drv2)"
proof -
  define B where "B = concat ps"
  from assms have sc: "script (drv_chunks drv) = []" and sf: "script (drv_files drv) = []"
    by (simp_all add: reliable_def)
  have "\<exists>drv2. plan' drv ident B = (None, None, drv2)"
  proof (cases "length B < chunkSize")
    case True
    from put_record_reliable[OF sf] obtain drv2 where
      "put_record drv ident (le32 0 @ B) = (None, drv2)"
      by blast
    then show ?thesis
      by (simp add: plan'_short[OF True])
  next
    case False
    then have ge: "chunkSize \<le> length B" by simp
    let ?rest = "if remainder B = [] then [] else [remainder B]"
    from writeChunks_reliable[OF sc] obtain drv1 where
      w: "writeChunks drv [] (complete_chunks B) = (None, drv1, [] @ map sha1_Sum (complete_chunks B))"
      and s1: "script (drv_chunks drv1) = []" and f1: "drv_files drv1 = drv_files drv"
      by blast
    from writeChunks_reliable[OF s1] obtain drv1' where
      w2: "writeChunks drv1 (map sha1_Sum (complete_chunks B)) ?rest
             = (None, drv1', map sha1_Sum (complete_chunks B) @ map sha1_Sum ?rest)"
      and f2: "drv_files drv1' = drv_files drv1"
      by blast
    from put_record_reliable[of drv1'] sf f1 f2 obtain drv2 where
      "put_record drv1' ident (enc_chunks (map sha1_Sum (complete_chunks B) @ map sha1_Sum ?rest))
         = (None, drv2)"
      by auto
    with w w2 show ?thesis
      by (simp add: plan'_long[OF ge])
  qed
  then show ?thesis
    by (simp add: session'_plan' B_def)
qed

lemma length_zero_chunk: "length zero_chunk = chunkSize"
  by (simp add: zero_chunk_def)

lemma complete_chunks_replicate:
  "complete_chunks (replicate (n * chunkSize) x) = replicate n (replicate chunkSize x)"
proof (induction n)
  case 0
  then show ?case
    using chunkSize_pos by (simp add: complete_chunks_short)
next
  case (Suc n)
  have "replicate (Suc n * chunkSize) x = replicate chunkSize x @ replicate (n * chunkSize) x"
    by (simp add: replicate_add)
  then show ?case
    using Suc complete_chunks_Cons[of "replicate chunkSize x" "replicate (n * chunkSize) x"]
    by simp
qed

lemma remainder_replicate: "remainder (replicate (n * chunkSize) x) = []"
  by (simp add: remainder_def)

lemma stream_chunks_replicate:
  "stream_chunks (replicate (n * chunkSize) 0) = replicate n zero_chunk"
  by (simp add: stream_chunks_def complete_chunks_replicate remainder_replicate zero_chunk_def)

lemma stream_chunks_zero_chunk: "stream_chunks zero_chunk = [zero_chunk]"
  using stream_chunks_replicate[of 1] by (simp add: zero_chunk_def)

lemma reliable_empty_drv: "reliable empty_drv"
  by (simp add: reliable_def empty_drv_def empty_db_def)

lemma kv_empty_drv: "kv (drv_chunks empty_drv) = Map.empty"
  by (simp add: empty_drv_def empty_db_def)

lemma pool_clean_Nil: "pool_clean []"
  by (simp add: pool_clean_def)

lemma WriteChunk_reliable:
  assumes "script (drv_chunks drv) = []" and "d \<in> K" and "inj_on sha1_Sum K"
    and "agrees K (kv (drv_chunks drv))" and "agrees K (view f drv)"
  shows "\<exists>drv1 f1. WriteChunk drv f d = (None, drv1, f1) \<and> script (drv_chunks drv1) = []
           \<and> agrees K (kv (drv_chunks drv1)) \<and> agrees K (view f1 drv1)"
proof -
  obtain e drv1 f1 where w: "WriteChunk drv f d = (e, drv1, f1)"
    by (cases "WriteChunk drv f d") auto
  have o: "outcome (drv_chunks drv) = None"
    using assms(1) by (simp add: outcome_def)
  have oc: "\<And>c. outcome (called (drv_chunks drv) c) = None"
    using assms(1) by (simp add: outcome_def called_def)
  have e: "e = None"
  proof (cases "kv (drv_chunks drv) (sha1_Sum d)")
    case None
    with w o oc show ?thesis
      by (auto simp: WriteChunk_def db_Get_def Let_def flushBatch_def db_Write_def called_def
          split: if_splits)
  next
    case (Some v)
    with assms(2,4) have "v = d"
      by (auto simp: agrees_def)
    with w o Some show ?thesis
      by (auto simp: WriteChunk_def db_Get_def Let_def split: if_splits)
  qed
  have s1: "script (drv_chunks drv1) = []"
    using w assms(1)
    by (auto simp: WriteChunk_def db_Get_def Let_def flushBatch_def db_Write_def called_def
        outcome_def split: if_splits option.splits)
  from WriteChunk_agrees[OF w[unfolded e] assms(2,3,5)] have a1: "agrees K (view f1 drv1)"
    by simp
  have "kv (drv_chunks drv1) = kv (drv_chunks drv) \<or> kv (drv_chunks drv1) = view f1 drv1"
    using w e
    by (auto simp: WriteChunk_def db_Get_def Let_def flushBatch_def db_Write_def called_def
        outcome_def view_def split: if_splits option.splits)
  with assms(4) a1 have "agrees K (kv (drv_chunks drv1))"
    by auto
  with w e s1 a1 show ?thesis
    by simp
qed

lemma WriteChunks_reliable:
  assumes "script (drv_chunks drv) = []" and "set ds \<subseteq> K" and "inj_on sha1_Sum K"
    and "agrees K (kv (drv_chunks drv))" and "agrees K (view f drv)"
  shows "\<exists>drv1 f1. WriteChunks drv f ds = (None, drv1, f1) \<and> script (drv_chunks drv1) = []"
  using assms
proof (induction ds arbitrary: drv f)
  case Nil
  then show ?case by simp
next
  case (Cons d ds)
  from Cons.prems(2) have dK: "d \<in> K" and dsK: "set ds \<subseteq> K"
    by simp_all
  from WriteChunk_reliable[OF Cons.prems(1) dK Cons.prems(3,4,5)] obtain drv' f' where
    w: "WriteChunk drv f d = (None, drv', f')" and s: "script (drv_chunks drv') = []"
    and a: "agrees K (kv (drv_chunks drv'))" and v: "agrees K (view f' drv')"
    by blast
  from Cons.IH[OF s dsK Cons.prems(3) a v] w show ?case
    by simp
qed

lemma session_reliable:
  assumes pc: "pool_clean pool" and r: "reliable drv"
    and a: "agrees (set (stream_chunks (concat ps))) (kv (drv_chunks drv))"
    and i: "inj_on sha1_Sum (set (stream_chunks (concat ps)))"
  shows "\<exists>drv3 pool3. session drv pool ident ps = (None, None, drv3, pool3)"
proof -
  define B where "B = concat ps"
  from r have sc: "script (drv_chunks drv) = []" and sf: "script (drv_files drv) = []"
    by (simp_all add: reliable_def)
  show ?thesis
  proof (cases "length B < chunkSize")
    case True
    show ?thesis
    proof (cases "B = []")
      case False
      from put_record_reliable[OF sf] obtain drv2 where
        "put_record drv ident (le32 0 @ B) = (None, drv2)"
        by blast
      then show ?thesis
        using session_short[OF pc True[unfolded B_def] False[unfolded B_def], of drv ident]
        by (simp add: B_def)
    next
      case e: True
      obtain e1 drv1 g where fb: "flushBatch drv (fresh_wfile ident) = (e1, drv1, g)"
        by (cases "flushBatch drv (fresh_wfile ident)") auto
      from flushBatch_result[OF fb] sc have e1: "e1 = None" and f1: "drv_files drv1 = drv_files drv"
        by (simp_all add: outcome_def)
      from put_record_reliable[of drv1] sf f1 obtain drv2 where
        "put_record drv1 ident (le32 0) = (None, drv2)"
        by auto
      with fb e1 show ?thesis
        using session_empty[OF pc e[unfolded B_def], of drv ident] by simp
    qed
  next
    case False
    then have ge: "chunkSize \<le> length B" by simp
    let ?rest = "if remainder B = [] then [] else [remainder B]"
    have v0: "view (fresh_wfile ident) drv = kv (drv_chunks drv)"
      by (simp add: view_def fresh_wfile_def)
    have av: "agrees (set (stream_chunks B)) (view (fresh_wfile ident) drv)"
      using a by (simp add: v0 B_def)
    from WriteChunks_reliable[OF sc subset_refl i[folded B_def] a[folded B_def] av]
    obtain drv1' f1' where
      all: "WriteChunks drv (fresh_wfile ident) (stream_chunks B) = (None, drv1', f1')"
      and s1: "script (drv_chunks drv1') = []"
      by blast
    obtain e1 drv1 f1 where w: "WriteChunks drv (fresh_wfile ident) (complete_chunks B) = (e1, drv1, f1)"
      by (cases "WriteChunks drv (fresh_wfile ident) (complete_chunks B)") auto
    from all w have e1: "e1 = None"
      unfolding stream_chunks_def WriteChunks_append by (cases e1) auto
    with all w have w2: "WriteChunks drv1 f1 ?rest = (None, drv1', f1')"
      unfolding stream_chunks_def WriteChunks_append by simp
    from WriteChunks_chunks[OF w] e1 have c1: "chunks f1 = map sha1_Sum (complete_chunks B)"
      by (simp add: fresh_wfile_def)
    from WriteChunks_fields[OF w] have p1: "pending f1 = []"
      by (simp add: fresh_wfile_def)
    then have f1: "f1\<lparr>pending := []\<rparr> = f1"
      by (cases f1) simp
    have ne: "chunks f1 \<noteq> []"
      using c1 complete_chunks_nonempty[OF ge] by simp
    define g where "g = f1\<lparr>pending := remainder B\<rparr>"
    have g: "pending g = remainder B" "chunks g = chunks f1" "g\<lparr>pending := []\<rparr> = f1"
      using f1 by (simp_all add: g_def)
    obtain e3 drv2 f2 where fb: "flushBatch drv1' f1' = (e3, drv2, f2)"
      by (cases "flushBatch drv1' f1'") auto
    from flushBatch_result[OF fb] s1 have e3: "e3 = None" and fd: "drv_files drv2 = drv_files drv1'"
      by (simp_all add: outcome_def)
    from WriteChunks_chunks[OF all] have c2: "chunks f1' = map sha1_Sum (stream_chunks B)"
      by (simp add: fresh_wfile_def)
    from flushBatch_fields[OF fb] c2 have c3: "chunks f2 = map sha1_Sum (stream_chunks B)"
      by simp
    from WriteChunks_fields[OF all] fd have "drv_files drv2 = drv_files drv"
      by simp
    with put_record_reliable[of drv2] sf obtain drv3 where
      pr: "put_record drv2 (file_id f2) (enc_chunks (map sha1_Sum (stream_chunks B))) = (None, drv3)"
      by auto
    have "Close drv1 (tl pool) g = (None, drv3, f2 # tl pool, f2)"
      unfolding Close_eq g using ne w2 fb e3 pr by (simp add: c3 chunk_record_hashes)
    with w e1 show ?thesis
      unfolding session_eq[OF pc] B_def[symmetric] g_def by simp
  qed
qed

lemma WriteChunk_present:
  assumes "WriteChunk drv f d = (None, drv1, f1)"
  shows "view f1 drv1 (sha1_Sum d) \<noteq> None \<and> (\<forall>k. view f drv k \<noteq> None \<longrightarrow> view f1 drv1 k \<noteq> None)"
proof -
  from WriteChunk_view[OF assms] show ?thesis
  proof
    assume a: "kv (drv_chunks drv) (sha1_Sum d) \<noteq> None \<and> view f1 drv1 = view f drv"
    then have "view f drv (sha1_Sum d) \<noteq> None"
      by (simp add: view_keeps)
    with a show ?thesis
      by simp
  next
    assume "view f1 drv1 = (view f drv)(sha1_Sum d \<mapsto> d)"
    then show ?thesis
      by simp
  qed
qed

lemma WriteChunks_present:
  assumes "WriteChunks drv f ds = (None, drv1, f1)"
  shows "(\<forall>d\<in>set ds. view f1 drv1 (sha1_Sum d) \<noteq> None)
         \<and> (\<forall>k. view f drv k \<noteq> None \<longrightarrow> view f1 drv1 k \<noteq> None)"
  using assms
proof (induction ds arbitrary: drv f)
  case Nil
  then show ?case by simp
next
  case (Cons d ds)
  obtain r drv' f' where wc: "WriteChunk drv f d = (r, drv', f')"
    by (cases "WriteChunk drv f d") auto
  with Cons.prems have r: "r = None"
    by (cases r) auto
  with Cons.prems wc have w: "WriteChunks drv' f' ds = (None, drv1, f1)"
    by simp
  from WriteChunk_present[OF wc[unfolded r]] Cons.IH[OF w] show ?case
    by simp
qed

lemma put_chunk_present:
  assumes "put_chunk drv d = (None, drv1)"
  shows "kv (drv_chunks drv1) (sha1_Sum d) \<noteq> None
         \<and> (\<forall>k. kv (drv_chunks drv) k \<noteq> None \<longrightarrow> kv (drv_chunks drv1) k \<noteq> None)"
  using put_chunk_kv[OF assms] by auto

lemma put_chunk_keeps:
  assumes "put_chunk drv d = (e, drv1)"
  shows "\<forall>k. kv (drv_chunks drv) k \<noteq> None \<longrightarrow> kv (drv_chunks drv1) k \<noteq> None"
  using assms
  by (auto simp: put_chunk_def db_Get_def db_Put_def called_def
      split: prod.splits if_splits option.splits)

lemma writeChunks_present:
  assumes "writeChunks drv cl ds = (e, drv1, cl1)" and "\<forall>h\<in>set cl. kv (drv_chunks drv) h \<noteq> None"
  shows "\<forall>h\<in>set cl1. kv (drv_chunks drv1) h \<noteq> None"
  using assms
proof (induction ds arbitrary: drv cl)
  case Nil
  then show ?case by simp
next
  case (Cons d ds)
  obtain r drv' where pc: "put_chunk drv d = (r, drv')"
    by (cases "put_chunk drv d") auto
  show ?case
  proof (cases r)
    case (Some err)
    with Cons.prems pc put_chunk_keeps[OF pc] show ?thesis
      by auto
  next
    case None
    with Cons.prems pc have w: "writeChunks drv' (cl @ [sha1_Sum d]) ds = (e, drv1, cl1)"
      by simp
    from put_chunk_present[OF pc[unfolded None]] Cons.prems(2)
    have "\<forall>h\<in>set (cl @ [sha1_Sum d]). kv (drv_chunks drv') h \<noteq> None"
      by auto
    from Cons.IH[OF w this] show ?thesis .
  qed
qed

lemma session_stores:
  assumes pc: "pool_clean pool"
    and s: "session drv pool ident ps = (None, None, drv3, pool3)"
    and ge: "chunkSize \<le> length (concat ps)"
    and a: "agrees (set (stream_chunks (concat ps))) (kv (drv_chunks drv))"
    and i: "inj_on sha1_Sum (set (stream_chunks (concat ps)))"
  shows "\<forall>d\<in>set (stream_chunks (concat ps)). kv (drv_chunks drv3) (sha1_Sum d) = Some d"
proof -
  define B where "B = concat ps"
  from session_long_success[OF pc ge s] obtain drv1 f1 drv2 f2 where
    w: "WriteChunks drv (fresh_wfile ident) (stream_chunks B) = (None, drv1, f1)"
    and fb: "flushBatch drv1 f1 = (None, drv2, f2)"
    and pr: "put_record drv2 ident (enc_chunks (map sha1_Sum (stream_chunks B))) = (None, drv3)"
    unfolding B_def by blast
  have v0: "view (fresh_wfile ident) drv = kv (drv_chunks drv)"
    by (simp add: view_def fresh_wfile_def)
  from WriteChunks_agrees[OF w subset_refl i[folded B_def]] a
  have "\<forall>d\<in>set (stream_chunks B). view f1 drv1 (sha1_Sum d) = Some d"
    by (simp add: v0 B_def)
  moreover from flushBatch_result[OF fb] have "kv (drv_chunks drv2) = view f1 drv1"
    by simp
  moreover from put_record_result[OF pr] have "drv_chunks drv3 = drv_chunks drv2"
    by simp
  ultimately show ?thesis
    by (simp add: B_def)
qed

lemma session'_stores:
  assumes s: "session' drv ident ps = Some (None, None, drv2)"
    and ge: "chunkSize \<le> length (concat ps)"
    and a: "agrees (set (stream_chunks (concat ps))) (kv (drv_chunks drv))"
    and i: "inj_on sha1_Sum (set (stream_chunks (concat ps)))"
  shows "\<forall>d\<in>set (stream_chunks (concat ps)). kv (drv_chunks drv2) (sha1_Sum d) = Some d"
proof -
  define B where "B = concat ps"
  from s have "plan' drv ident B = (None, None, drv2)"
    by (simp add: session'_plan' B_def)
  from plan'_long_success[OF ge[folded B_def] this] obtain drv1 where
    w: "writeChunks drv [] (stream_chunks B) = (None, drv1, map sha1_Sum (stream_chunks B))"
    and pr: "put_record drv1 ident (enc_chunks (map sha1_Sum (stream_chunks B))) = (None, drv2)"
    by blast
  from writeChunks_agrees[OF w subset_refl i[folded B_def] a[folded B_def]]
  have "\<forall>d\<in>set (stream_chunks B). kv (drv_chunks drv1) (sha1_Sum d) = Some d"
    by simp
  moreover from put_record_result[OF pr] have "drv_chunks drv2 = drv_chunks drv1"
    by simp
  ultimately show ?thesis
    by (simp add: B_def)
qed

lemma agrees_empty: "agrees K Map.empty"
  by (simp add: agrees_def)

lemma inj_on_replicate: "inj_on sha1_Sum (set (replicate n zero_chunk))"
proof (rule inj_on_subset)
  show "inj_on sha1_Sum {zero_chunk}"
    by simp
  show "set (replicate n zero_chunk) \<subseteq> {zero_chunk}"
    by auto
qed

lemma zeros_session:
  assumes "0 < n"
  shows "\<exists>drv3 pool3. session empty_drv [] ident [replicate (n * chunkSize) 0] = (None, None, drv3, pool3)
           \<and> after empty_drv [] ident [replicate (n * chunkSize) 0] = drv3
           \<and> file_record drv3 ident = Some (enc_chunks (replicate n (sha1_Sum zero_chunk)))
           \<and> kv (drv_chunks drv3) (sha1_Sum zero_chunk) = Some zero_chunk"
proof -
  let ?B = "replicate (n * chunkSize) (0 :: byte)"
  have sc': "stream_chunks ?B = replicate n zero_chunk"
    by (rule stream_chunks_replicate)
  then have sc: "stream_chunks (concat [?B]) = replicate n zero_chunk"
    by simp
  have a: "agrees (set (stream_chunks (concat [?B]))) (kv (drv_chunks empty_drv))"
    by (simp add: kv_empty_drv agrees_empty)
  have i: "inj_on sha1_Sum (set (stream_chunks (concat [?B])))"
    unfolding sc by (rule inj_on_replicate)
  have ge: "chunkSize \<le> length (concat [?B])"
    using assms by simp
  from session_reliable[OF pool_clean_Nil reliable_empty_drv a i, of ident] obtain drv3 pool3 where
    s: "session empty_drv [] ident [?B] = (None, None, drv3, pool3)"
    by blast
  from chunked_record[OF pool_clean_Nil s ge]
  have r: "file_record drv3 ident = Some (enc_chunks (replicate n (sha1_Sum zero_chunk)))"
    by (simp add: sc')
  from session_stores[OF pool_clean_Nil s ge a i] assms
  have "kv (drv_chunks drv3) (sha1_Sum zero_chunk) = Some zero_chunk"
    by (simp add: sc')
  with s r show ?thesis
    by (simp add: after_def)
qed

lemma zeros_session':
  assumes "0 < n"
  shows "\<exists>drv2. session' empty_drv ident [replicate (n * chunkSize) 0] = Some (None, None, drv2)
           \<and> after' empty_drv ident [replicate (n * chunkSize) 0] = drv2
           \<and> file_record drv2 ident = Some (enc_chunks (replicate n (sha1_Sum zero_chunk)))
           \<and> kv (drv_chunks drv2) (sha1_Sum zero_chunk) = Some zero_chunk"
proof -
  let ?B = "replicate (n * chunkSize) (0 :: byte)"
  have sc': "stream_chunks ?B = replicate n zero_chunk"
    by (rule stream_chunks_replicate)
  then have sc: "stream_chunks (concat [?B]) = replicate n zero_chunk"
    by simp
  have a: "agrees (set (stream_chunks (concat [?B]))) (kv (drv_chunks empty_drv))"
    by (simp add: kv_empty_drv agrees_empty)
  have i: "inj_on sha1_Sum (set (stream_chunks (concat [?B])))"
    unfolding sc by (rule inj_on_replicate)
  have ge: "chunkSize \<le> length (concat [?B])"
    using assms by simp
  from session'_reliable[OF reliable_empty_drv, of ident "[?B]"] obtain drv2 where
    s: "session' empty_drv ident [?B] = Some (None, None, drv2)"
    by blast
  from chunked_record'[OF s ge]
  have r: "file_record drv2 ident = Some (enc_chunks (replicate n (sha1_Sum zero_chunk)))"
    by (simp add: sc')
  from session'_stores[OF s ge a i] assms
  have "kv (drv_chunks drv2) (sha1_Sum zero_chunk) = Some zero_chunk"
    by (simp add: sc')
  with s r show ?thesis
    by (simp add: after'_def)
qed

lemma one_chunk: "replicate (1 * chunkSize) 0 = zero_chunk"
  by (simp add: zero_chunk_def)

lemma enc_chunks_single: "enc_chunks [h] = le32 1 @ le32 (of_nat (length h)) @ h"
  by (simp add: enc_chunks_def enc_entry_def)

subsection \<open>Errors of the existence check\<close>

lemma WriteChunk_Get_error:
  assumes "outcome (drv_chunks drv) = Some e"
  shows "WriteChunk drv f data =
     (let h = sha1_Sum data;
          drv1 = drv\<lparr>drv_chunks := called (drv_chunks drv) (CallGet h)\<rparr>;
          f2 = f\<lparr>chunks := chunks f @ [h], batch := batch f @ [(h, data)],
                 batchSize := batchSize f + length data\<rparr>
      in if batchSize f2 \<ge> maxBatchSize then flushBatch drv1 f2 else (None, drv1, f2))"
  using assms by (simp add: WriteChunk_def db_Get_def Let_def)

lemma writeChunk_Get_error:
  assumes "outcome (drv_chunks drv) = Some e" and "offset g \<le> length (buf g)"
  shows "writeChunk drv g =
     (let data = take (offset g) (buf g);
          h = sha1_Sum data
      in case db_Put (called (drv_chunks drv) (CallGet h)) h data of
           (perr, cdb) \<Rightarrow>
             (perr, drv\<lparr>drv_chunks := cdb\<rparr>,
              if perr = None then g\<lparr>offset := 0, chunks' := chunks' g @ [h]\<rparr>
              else g\<lparr>offset := 0\<rparr>))"
  using assms by (auto simp: writeChunk_def db_Get_def Let_def split: prod.splits option.splits)


subsection \<open>Records and their entries\<close>

lemma read_chunks_hashes:
  "\<forall>d\<in>set ds. m (sha1_Sum d) = Some d \<Longrightarrow>
     read_chunks m (map ref_of (map sha1_Sum ds)) = Some (concat (map (take 20) ds))"
  by (induction ds) (simp_all add: ref_of_def length_sha1_Sum)

lemma one_chunk_session:
  "\<exists>drv3 pool3. session empty_drv [] ident [zero_chunk] = (None, None, drv3, pool3)
     \<and> after empty_drv [] ident [zero_chunk] = drv3
     \<and> file_record drv3 ident = Some (enc_chunks [sha1_Sum zero_chunk])
     \<and> kv (drv_chunks drv3) (sha1_Sum zero_chunk) = Some zero_chunk"
  using zeros_session[of 1 ident] by (simp add: zero_chunk_def[symmetric])

lemma one_chunk_session':
  "\<exists>drv2. session' empty_drv ident [zero_chunk] = Some (None, None, drv2)
     \<and> after' empty_drv ident [zero_chunk] = drv2
     \<and> file_record drv2 ident = Some (enc_chunks [sha1_Sum zero_chunk])
     \<and> kv (drv_chunks drv2) (sha1_Sum zero_chunk) = Some zero_chunk"
  using zeros_session'[of 1 ident] by (simp add: zero_chunk_def[symmetric])

lemma record_entries:
  assumes "data = le32 0 @ B \<or> (\<exists>xs. data = enc_chunks (map sha1_Sum xs))"
    and "Uint32 data \<noteq> 0" and "i < unat (Uint32 data)"
  shows "entry_length data i = 20 \<and> length (entry_hash data i) = 20"
proof -
  from assms(1,2) obtain xs where d: "data = enc_chunks (map sha1_Sum xs)"
    by (auto simp: Uint32_le32)
  have "unat (Uint32 data) \<le> length xs"
    unfolding d Uint32_enc_chunks using unat_of_nat_le[of "length (map sha1_Sum xs)"] by simp
  with assms(3) have i: "i < length (map sha1_Sum xs)"
    by simp
  have "\<forall>h\<in>set (map sha1_Sum xs). length h = 20"
    by (simp add: length_sha1_Sum)
  from entry_of_enc[OF this i] i show ?thesis
    by (simp add: d length_sha1_Sum)
qed


lemma take_20_zero_chunk: "take 20 zero_chunk = replicate 20 0"
  by (simp add: zero_chunk_def chunkSize_def)

lemma read_file_first_bytes:
  assumes r: "file_record drv ident = Some (enc_chunks (map sha1_Sum ds))"
    and h: "\<forall>d\<in>set ds. kv (drv_chunks drv) (sha1_Sum d) = Some d"
    and n: "0 < length ds" "length ds < 2 ^ 32"
  shows "read_file drv ident = Some (concat (map (take 20) ds))"
proof -
  have "decode_record (enc_chunks (map sha1_Sum ds)) = Some (ChunkRefs (map ref_of (map sha1_Sum ds)))"
    using n by (intro decode_record_chunks) (simp_all add: length_sha1_Sum)
  with r read_chunks_hashes[OF h] show ?thesis
    by (simp add: read_file_def file_record_def)
qed

lemma of_nat_2_32: "(of_nat (2 ^ 32) :: 32 word) = 0"
  by simp


lemma small_session:
  assumes "length B < chunkSize"
  shows "\<exists>drv3 pool3. session empty_drv [] ident [B] = (None, None, drv3, pool3)
           \<and> after empty_drv [] ident [B] = drv3"
proof -
  have "set (stream_chunks (concat [B])) \<subseteq> {B}"
    using assms by (simp add: stream_chunks_short)
  then have i: "inj_on sha1_Sum (set (stream_chunks (concat [B])))"
    by (rule inj_on_subset[rotated]) simp
  have a: "agrees (set (stream_chunks (concat [B]))) (kv (drv_chunks empty_drv))"
    by (simp add: kv_empty_drv agrees_empty)
  from session_reliable[OF pool_clean_Nil reliable_empty_drv a i, of ident] show ?thesis
    by (auto simp: after_def)
qed

lemma small_session':
  "\<exists>drv2. session' empty_drv ident [B] = Some (None, None, drv2) \<and> after' empty_drv ident [B] = drv2"
  using session'_reliable[OF reliable_empty_drv, of ident "[B]"] by (auto simp: after'_def)


subsection \<open>Chunks whose hash is present\<close>

lemma WriteChunk_collision:
  assumes "outcome (drv_chunks drv) = None" and "kv (drv_chunks drv) (sha1_Sum data) = Some v"
    and "length v \<noteq> length data"
  shows "WriteChunk drv f data =
     (Some (ErrorsNew ''hash collision''),
      drv\<lparr>drv_chunks := called (drv_chunks drv) (CallGet (sha1_Sum data))\<rparr>,
      f\<lparr>chunks := chunks f @ [sha1_Sum data]\<rparr>)"
  using assms by (simp add: WriteChunk_def db_Get_def Let_def)

lemma WriteChunk_known:
  assumes "outcome (drv_chunks drv) = None" and "kv (drv_chunks drv) (sha1_Sum data) = Some v"
    and "length v = length data"
  shows "WriteChunk drv f data =
     (None, drv\<lparr>drv_chunks := called (drv_chunks drv) (CallGet (sha1_Sum data))\<rparr>,
      f\<lparr>chunks := chunks f @ [sha1_Sum data]\<rparr>)"
  using assms by (simp add: WriteChunk_def db_Get_def Let_def)

lemma Chunker_Write_abort:
  assumes "length (pending f) < chunkSize" and "chunkSize \<le> length (pending f) + length p"
    and "WriteChunk drv (f\<lparr>pending := []\<rparr>) (take chunkSize (pending f @ p)) = (Some e, drv1, f1)"
  shows "Chunker_Write drv f p = (Some e, drv1, f1)"
  using assms by (simp add: Chunker_Write.simps[of drv f p] Let_def)

lemma writeChunk_known:
  assumes "outcome (drv_chunks drv) = None" and "kv (drv_chunks drv) (sha1_Sum (pend g)) = Some v"
    and "offset g \<le> length (buf g)"
  shows "writeChunk drv g =
     (None, drv\<lparr>drv_chunks := called (drv_chunks drv) (CallGet (sha1_Sum (pend g)))\<rparr>,
      g\<lparr>offset := 0, chunks' := chunks' g @ [sha1_Sum (pend g)]\<rparr>)"
  using assms by (simp add: writeChunk_def db_Get_def Let_def pend_def)

lemma outcome_seeded_db [simp]: "outcome (seeded_db k v) = None"
  by (simp add: outcome_def seeded_db_def)

lemma kv_seeded_db [simp]: "kv (seeded_db k v) k = Some v"
  by (simp add: seeded_db_def)


subsection \<open>The pool\<close>

lemma sess_ok_fresh: "sess_ok (fresh_wfile ident)"
  by (simp add: sess_ok_def fresh_wfile_def)

lemma WriteChunk_sess_ok: "WriteChunk drv f d = (e, drv1, f1) \<Longrightarrow> sess_ok f1"
  using WriteChunk_fields[of drv f d e drv1 f1] by (simp add: sess_ok_def)

lemma Chunker_Write_sess_ok:
  "sess_ok f \<Longrightarrow> Chunker_Write drv f p = (e, drv1, f1) \<Longrightarrow> sess_ok f1"
proof (induction drv f p arbitrary: e drv1 f1 rule: Chunker_Write.induct)
  case (1 drv f p)
  show ?case
  proof (cases "length (pending f) + length p < chunkSize")
    case True
    with "1.prems" show ?thesis
      by (auto simp: Chunker_Write.simps[of drv f p] sess_ok_def)
  next
    case False
    define k where "k = chunkSize - length (pending f)"
    obtain r drv' f' where w: "WriteChunk drv (f\<lparr>pending := []\<rparr>) (pending f @ take k p) = (r, drv', f')"
      by (cases "WriteChunk drv (f\<lparr>pending := []\<rparr>) (pending f @ take k p)") auto
    from WriteChunk_sess_ok[OF w] have ok: "sess_ok f'" .
    show ?thesis
    proof (cases r)
      case (Some err)
      with "1.prems"(2) False w ok show ?thesis
        by (simp add: Chunker_Write.simps[of drv f p] k_def)
    next
      case None
      with "1.prems"(2) False w have c: "Chunker_Write drv' f' (drop k p) = (e, drv1, f1)"
        by (simp add: Chunker_Write.simps[of drv f p] k_def)
      have w': "(None, drv', f') = WriteChunk drv (f\<lparr>pending := []\<rparr>) (pending f @ take k p)"
        using w None by simp
      from "1.IH"[OF False k_def w' refl refl ok c] show ?thesis .
    qed
  qed
qed

lemma WriteChunks_sess_ok:
  "sess_ok f \<Longrightarrow> WriteChunks drv f ds = (e, drv1, f1) \<Longrightarrow> sess_ok f1"
proof (induction ds arbitrary: drv f)
  case Nil
  then show ?case by simp
next
  case (Cons d ds)
  obtain r drv' f' where w: "WriteChunk drv f d = (r, drv', f')"
    by (cases "WriteChunk drv f d") auto
  from WriteChunk_sess_ok[OF w] Cons w show ?case
    by (cases r) auto
qed

lemma Close_pool_clean:
  assumes "pool_clean pool" and "sess_ok f" and "Close drv pool f = (e, drv1, pool1, f1)"
  shows "pool_clean pool1"
proof (cases "pending f \<noteq> [] \<and> chunks f = []")
  case True
  with assms(3) have "pool1 = f # pool"
    unfolding Close_eq by (auto split: prod.splits)
  with assms(1,2) True show ?thesis
    by (simp add: pool_clean_def sess_ok_def)
next
  case False
  let ?rest = "if pending f = [] then [] else [pending f]"
  obtain e1 drv' f' where w: "WriteChunks drv (f\<lparr>pending := []\<rparr>) ?rest = (e1, drv', f')"
    by (cases "WriteChunks drv (f\<lparr>pending := []\<rparr>) ?rest") auto
  obtain e2 drv2 f2 where fb: "flushBatch drv' f' = (e2, drv2, f2)"
    by (cases "flushBatch drv' f'") auto
  from flushBatch_fields[OF fb] have "batch f2 = []" "batchSize f2 = 0"
    by simp_all
  with assms(1) have "pool_clean (f2 # pool)"
    by (simp add: pool_clean_def)
  moreover from assms(3) False w fb have "pool1 = pool \<or> pool1 = f2 # pool"
    unfolding Close_eq by (cases e1; cases e2) (auto split: prod.splits option.splits)
  ultimately show ?thesis
    using assms(1) by auto
qed

lemma step_pool_inv:
  assumes "pool_inv s"
  shows "pool_inv (step s x)"
proof -
  obtain drv pool act where s: "s = (drv, pool, act)"
    by (cases s) auto
  from assms s have pc: "pool_clean pool" and ok: "list_all sess_ok act"
    by (simp_all add: pool_inv_def)
  show ?thesis
  proof (cases x)
    case (Acquire ident)
    with s pc ok show ?thesis
      by (simp add: pool_inv_def newWFile_clean sess_ok_fresh pool_clean_def) (cases pool; simp)
  next
    case (WriteAt i p)
    show ?thesis
    proof (cases "i < length act")
      case True
      obtain e drv1 f1 where c: "Chunker_Write drv (act ! i) p = (e, drv1, f1)"
        by (cases "Chunker_Write drv (act ! i) p") auto
      from ok True have "sess_ok (act ! i)"
        by (simp add: list_all_length)
      from Chunker_Write_sess_ok[OF this c] have "sess_ok f1" .
      with ok have "list_all sess_ok (act[i := f1])"
        by (auto simp: list_all_iff dest!: subsetD[OF set_update_subset_insert])
      with s WriteAt True c pc show ?thesis
        by (simp add: pool_inv_def)
    next
      case False
      with s WriteAt assms show ?thesis
        by simp
    qed
  next
    case (CloseAt i)
    show ?thesis
    proof (cases "i < length act")
      case True
      obtain e drv1 pool1 f1 where c: "Close drv pool (act ! i) = (e, drv1, pool1, f1)"
        by (cases "Close drv pool (act ! i)") auto
      from ok True have "sess_ok (act ! i)"
        by (simp add: list_all_length)
      from Close_pool_clean[OF pc this c] have "pool_clean pool1" .
      moreover from ok have "list_all sess_ok (take i act @ drop (Suc i) act)"
        by (auto simp: list_all_iff dest: in_set_takeD in_set_dropD)
      ultimately show ?thesis
        using s CloseAt True c by (simp add: pool_inv_def)
    next
      case False
      with s CloseAt assms show ?thesis
        by simp
    qed
  qed
qed

lemma foldl_step_pool_inv: "pool_inv s \<Longrightarrow> pool_inv (foldl step s ops)"
  by (induction ops arbitrary: s) (simp_all add: step_pool_inv)

lemma run_pool_inv: "pool_inv (run drv ops)"
  unfolding run_def by (rule foldl_step_pool_inv) (simp add: pool_inv_def pool_clean_Nil)

subsection \<open>Single steps on well-behaved engines\<close>

lemma WriteChunk_enqueue:
  assumes "outcome (drv_chunks drv) = None" and "kv (drv_chunks drv) (sha1_Sum d) = None"
    and "batchSize f + length d < maxBatchSize"
  shows "WriteChunk drv f d =
     (None, drv\<lparr>drv_chunks := called (drv_chunks drv) (CallGet (sha1_Sum d))\<rparr>,
      f\<lparr>chunks := chunks f @ [sha1_Sum d], batch := batch f @ [(sha1_Sum d, d)],
        batchSize := batchSize f + length d\<rparr>)"
  using assms by (simp add: WriteChunk_def db_Get_def Let_def)

lemma WriteChunk_flush_fails:
  assumes "outcome (drv_chunks drv) = None" and "kv (drv_chunks drv) (sha1_Sum d) = None"
    and "maxBatchSize \<le> batchSize f + length d"
    and "outcome (called (drv_chunks drv) (CallGet (sha1_Sum d))) = Some e"
  shows "WriteChunk drv f d =
     (Some e,
      drv\<lparr>drv_chunks := called (called (drv_chunks drv) (CallGet (sha1_Sum d)))
                            (CallWrite (batch f @ [(sha1_Sum d, d)]))\<rparr>,
      f\<lparr>chunks := chunks f @ [sha1_Sum d], batch := [], batchSize := 0\<rparr>)"
  using assms by (simp add: WriteChunk_def db_Get_def Let_def flushBatch_def db_Write_def)

lemma flushBatch_ok:
  assumes "outcome (drv_chunks drv) = None"
  shows "flushBatch drv f =
     (None,
      drv\<lparr>drv_chunks := (called (drv_chunks drv) (CallWrite (batch f)))
                            \<lparr>kv := apply_batch (batch f) (kv (drv_chunks drv))\<rparr>\<rparr>,
      f\<lparr>batchSize := 0, batch := []\<rparr>)"
  using assms by (simp add: flushBatch_def db_Write_def)

lemma put_record_ok:
  assumes "outcome (drv_files drv) = None"
  shows "put_record drv ident data =
     (None,
      drv\<lparr>drv_files := (called (drv_files drv) (CallPut (StringToBytes ident) data))
                            \<lparr>kv := (kv (drv_files drv))(StringToBytes ident \<mapsto> data)\<rparr>\<rparr>)"
  using assms by (simp add: put_record_def db_Put_def)

lemma complete_chunks_zero_chunk: "complete_chunks zero_chunk = [zero_chunk]"
  using complete_chunks_replicate[of 1 0] by (simp add: zero_chunk_def)

lemma remainder_zero_chunk: "remainder zero_chunk = []"
  using remainder_replicate[of 1 "0 :: byte"] by (simp add: zero_chunk_def)

lemma one_chunk_pool:
  "fst (snd (run empty_drv [Acquire ident, WriteAt 0 zero_chunk, CloseAt 0]))
     = [\<lparr>file_id = ident, chunks = [sha1_Sum zero_chunk], batch = [], batchSize = 0, pending = []\<rparr>]"
proof -
  let ?h = "sha1_Sum zero_chunk"
  let ?f1 = "\<lparr>file_id = ident, chunks = [?h], batch = [(?h, zero_chunk)], batchSize = chunkSize,
      pending = []\<rparr>"
  let ?f2 = "\<lparr>file_id = ident, chunks = [?h], batch = [], batchSize = 0, pending = []\<rparr>"
  let ?d1 = "empty_drv\<lparr>drv_chunks := called empty_db (CallGet ?h)\<rparr>"
  have n: "newWFile [] ident = ([], fresh_wfile ident)"
    using newWFile_clean[OF pool_clean_Nil] by simp
  have w: "WriteChunk empty_drv (fresh_wfile ident) zero_chunk = (None, ?d1, ?f1)"
    using chunkSize_less_maxBatchSize
    by (subst WriteChunk_enqueue)
       (simp_all add: empty_drv_def fresh_wfile_def length_zero_chunk, simp_all add: empty_db_def)
  have l: "length (pending (fresh_wfile ident)) < chunkSize"
    using chunkSize_pos by (simp add: fresh_wfile_def)
  have cw: "Chunker_Write empty_drv (fresh_wfile ident) zero_chunk = (None, ?d1, ?f1)"
    unfolding Chunker_Write_chunks[OF l]
    by (simp add: fresh_wfile_def complete_chunks_zero_chunk remainder_zero_chunk
        w[unfolded fresh_wfile_def])
  have o1: "outcome (drv_chunks ?d1) = None"
    by (simp add: outcome_def called_def empty_db_def)
  have cr: "chunk_record [?h] = Some (enc_chunks [?h])"
    using chunk_record_hashes[of "[zero_chunk]"] by simp
  have "fst (snd (snd (Close ?d1 [] ?f1))) = [?f2]"
    unfolding Close_eq by (simp add: flushBatch_ok[OF o1] cr split: prod.splits)
  then show ?thesis
    by (auto simp: run_def n cw split: prod.splits)
qed

subsection \<open>Writing content that is already stored\<close>

lemma WriteChunk_holds:
  assumes h: "kv (drv_chunks drv) (sha1_Sum d) = Some d" and v: "view f drv = kv (drv_chunks drv)"
    and w: "WriteChunk drv f d = (e, drv1, f1)"
  shows "kv (drv_chunks drv1) = kv (drv_chunks drv) \<and> view f1 drv1 = kv (drv_chunks drv1)"
proof -
  from v h have "apply_batch (batch f @ [(sha1_Sum d, d)]) (kv (drv_chunks drv)) = kv (drv_chunks drv)"
    by (simp add: apply_batch_snoc view_def fun_upd_idem)
  with w v show ?thesis
    by (auto simp: WriteChunk_def db_Get_def Let_def flushBatch_def db_Write_def called_def view_def
        split: option.splits if_splits prod.splits)
qed

lemma WriteChunks_holds:
  assumes "\<forall>d\<in>set ds. kv (drv_chunks drv) (sha1_Sum d) = Some d"
    and "view f drv = kv (drv_chunks drv)"
    and "WriteChunks drv f ds = (e, drv1, f1)"
  shows "kv (drv_chunks drv1) = kv (drv_chunks drv) \<and> view f1 drv1 = kv (drv_chunks drv1)"
  using assms
proof (induction ds arbitrary: drv f)
  case Nil
  then show ?case by simp
next
  case (Cons d ds)
  obtain r drv' f' where w: "WriteChunk drv f d = (r, drv', f')"
    by (cases "WriteChunk drv f d") auto
  from Cons.prems(1) have hd: "kv (drv_chunks drv) (sha1_Sum d) = Some d"
    by simp
  from WriteChunk_holds[OF hd Cons.prems(2) w]
  have k: "kv (drv_chunks drv') = kv (drv_chunks drv)" and v: "view f' drv' = kv (drv_chunks drv')"
    by simp_all
  show ?case
  proof (cases r)
    case (Some err)
    with Cons.prems(3) w k v show ?thesis
      by auto
  next
    case None
    with Cons.prems(3) w have r: "WriteChunks drv' f' ds = (e, drv1, f1)"
      by simp
    from Cons.prems(1) k have "\<forall>d\<in>set ds. kv (drv_chunks drv') (sha1_Sum d) = Some d"
      by simp
    from Cons.IH[OF this v r] k show ?thesis
      by simp
  qed
qed

lemma Close_holds:
  assumes v: "view f drv = kv (drv_chunks drv)"
    and p: "pending f \<noteq> [] \<and> chunks f \<noteq> [] \<longrightarrow> kv (drv_chunks drv) (sha1_Sum (pending f)) = Some (pending f)"
    and c: "Close drv pool f = (ce, drv3, pool3, f3)"
  shows "kv (drv_chunks drv3) = kv (drv_chunks drv)"
proof (cases "pending f \<noteq> [] \<and> chunks f = []")
  case True
  obtain err drv1 where pr: "put_record drv (file_id f) (le32 0 @ pending f) = (err, drv1)"
    by (cases "put_record drv (file_id f) (le32 0 @ pending f)") auto
  from c True pr have "drv3 = drv1"
    unfolding Close_eq by simp
  with put_record_result[OF pr] show ?thesis
    by simp
next
  case False
  let ?rest = "if pending f = [] then [] else [pending f]"
  obtain e1 drv1 f1 where w: "WriteChunks drv (f\<lparr>pending := []\<rparr>) ?rest = (e1, drv1, f1)"
    by (cases "WriteChunks drv (f\<lparr>pending := []\<rparr>) ?rest") auto
  from p False have a: "\<forall>d\<in>set ?rest. kv (drv_chunks drv) (sha1_Sum d) = Some d"
    by auto
  from v have v0: "view (f\<lparr>pending := []\<rparr>) drv = kv (drv_chunks drv)"
    by (simp add: view_def)
  from WriteChunks_holds[OF a v0 w]
  have k1: "kv (drv_chunks drv1) = kv (drv_chunks drv)" and v1: "view f1 drv1 = kv (drv_chunks drv1)"
    by simp_all
  show ?thesis
  proof (cases e1)
    case (Some err)
    with c False w have "drv3 = drv1"
      unfolding Close_eq by simp
    with k1 show ?thesis by simp
  next
    case None
    obtain e2 drv2 f2 where fb: "flushBatch drv1 f1 = (e2, drv2, f2)"
      by (cases "flushBatch drv1 f1") auto
    from flushBatch_result[OF fb] v1 have k2: "kv (drv_chunks drv2) = kv (drv_chunks drv1)"
      by (cases e2) auto
    show ?thesis
    proof (cases e2)
      case (Some err)
      with c False w None fb have "drv3 = drv2"
        unfolding Close_eq by simp
      with k1 k2 show ?thesis by simp
    next
      case n2: None
      show ?thesis
      proof (cases "chunk_record (chunks f2)")
        case None
        with c False w \<open>e1 = None\<close> fb n2 have "drv3 = drv2"
          unfolding Close_eq by simp
        with k1 k2 show ?thesis by simp
      next
        case (Some data)
        obtain err drv4 where pr: "put_record drv2 (file_id f2) data = (err, drv4)"
          by (cases "put_record drv2 (file_id f2) data") auto
        from c False w \<open>e1 = None\<close> fb n2 Some pr have "drv3 = drv4"
          unfolding Close_eq by simp
        with put_record_result[OF pr] k1 k2 show ?thesis
          by simp
      qed
    qed
  qed
qed

lemma session_holds:
  assumes pc: "pool_clean pool"
    and a: "\<forall>d\<in>set (complete_chunks (concat ps)). kv (drv_chunks drv) (sha1_Sum d) = Some d"
    and r: "remainder (concat ps) \<noteq> [] \<and> complete_chunks (concat ps) \<noteq> [] \<longrightarrow>
              kv (drv_chunks drv) (sha1_Sum (remainder (concat ps))) = Some (remainder (concat ps))"
    and s: "session drv pool ident ps = (we, ce, drv2, pool2)"
  shows "kv (drv_chunks drv2) = kv (drv_chunks drv)"
proof -
  let ?B = "concat ps"
  obtain e1 drv1 f1 where w: "WriteChunks drv (fresh_wfile ident) (complete_chunks ?B) = (e1, drv1, f1)"
    by (cases "WriteChunks drv (fresh_wfile ident) (complete_chunks ?B)") auto
  have v0: "view (fresh_wfile ident) drv = kv (drv_chunks drv)"
    by (simp add: view_def fresh_wfile_def)
  from WriteChunks_holds[OF a v0 w]
  have k1: "kv (drv_chunks drv1) = kv (drv_chunks drv)" and v1: "view f1 drv1 = kv (drv_chunks drv1)"
    by simp_all
  from WriteChunks_fields[OF w] have pf: "pending f1 = []"
    by (simp add: fresh_wfile_def)
  show ?thesis
  proof (cases e1)
    case (Some err)
    obtain ce' drv3 pool3 f3 where c: "Close drv1 (tl pool) f1 = (ce', drv3, pool3, f3)"
      by (cases "Close drv1 (tl pool) f1") auto
    from s w Some c have "drv2 = drv3"
      unfolding session_eq[OF pc] by simp
    moreover from Close_holds[OF v1 _ c] pf have "kv (drv_chunks drv3) = kv (drv_chunks drv1)"
      by simp
    ultimately show ?thesis
      using k1 by simp
  next
    case None
    let ?g = "f1\<lparr>pending := remainder ?B\<rparr>"
    obtain ce' drv3 pool3 f3 where c: "Close drv1 (tl pool) ?g = (ce', drv3, pool3, f3)"
      by (cases "Close drv1 (tl pool) ?g") auto
    from s w None c have d: "drv2 = drv3"
      unfolding session_eq[OF pc] by simp
    from v1 have vg: "view ?g drv1 = kv (drv_chunks drv1)"
      by (simp add: view_def)
    from WriteChunks_chunks[OF w] None have "chunks f1 = map sha1_Sum (complete_chunks ?B)"
      by (simp add: fresh_wfile_def)
    with r k1 have pg: "pending ?g \<noteq> [] \<and> chunks ?g \<noteq> [] \<longrightarrow>
        kv (drv_chunks drv1) (sha1_Sum (pending ?g)) = Some (pending ?g)"
      by simp
    from Close_holds[OF vg pg c] d k1 show ?thesis
      by simp
  qed
qed

lemma session_pool_clean:
  assumes pc: "pool_clean pool" and s: "session drv pool ident ps = (we, ce, drv2, pool2)"
  shows "pool_clean pool2"
proof -
  let ?B = "concat ps"
  from pc have tl: "pool_clean (tl pool)"
    by (cases pool) (simp_all add: pool_clean_def)
  obtain e1 drv1 f1 where w: "WriteChunks drv (fresh_wfile ident) (complete_chunks ?B) = (e1, drv1, f1)"
    by (cases "WriteChunks drv (fresh_wfile ident) (complete_chunks ?B)") auto
  from WriteChunks_sess_ok[OF sess_ok_fresh w] have ok: "sess_ok f1" .
  show ?thesis
  proof (cases e1)
    case (Some err)
    obtain ce' drv3 pool3 f3 where c: "Close drv1 (tl pool) f1 = (ce', drv3, pool3, f3)"
      by (cases "Close drv1 (tl pool) f1") auto
    from s w Some c have "pool2 = pool3"
      unfolding session_eq[OF pc] by simp
    with Close_pool_clean[OF tl ok c] show ?thesis
      by simp
  next
    case None
    let ?g = "f1\<lparr>pending := remainder ?B\<rparr>"
    obtain ce' drv3 pool3 f3 where c: "Close drv1 (tl pool) ?g = (ce', drv3, pool3, f3)"
      by (cases "Close drv1 (tl pool) ?g") auto
    from s w None c have "pool2 = pool3"
      unfolding session_eq[OF pc] by simp
    moreover from ok have "sess_ok ?g"
      by (simp add: sess_ok_def)
    ultimately show ?thesis
      using Close_pool_clean[OF tl _ c] by simp
  qed
qed

lemma session_dedup:
  assumes pc: "pool_clean pool"
    and i: "inj_on sha1_Sum (set (stream_chunks (concat ps)))"
    and a: "agrees (set (stream_chunks (concat ps))) (kv (drv_chunks drv))"
    and s1: "session drv pool ident ps = (None, None, drv1, pool1)"
    and q: "concat qs = concat ps"
    and s2: "session drv1 pool1 ident2 qs = (we, ce, drv2, pool2)"
  shows "kv (drv_chunks drv2) = kv (drv_chunks drv1)
         \<and> (chunkSize \<le> length (concat ps) \<longrightarrow>
              (\<forall>d\<in>set (stream_chunks (concat ps)). kv (drv_chunks drv2) (sha1_Sum d) = Some d))"
proof -
  let ?B = "concat ps"
  from session_pool_clean[OF pc s1] have pc1: "pool_clean pool1" .
  have st: "chunkSize \<le> length ?B \<Longrightarrow> \<forall>d\<in>set (stream_chunks ?B). kv (drv_chunks drv1) (sha1_Sum d) = Some d"
    using session_stores[OF pc s1 _ a i] by simp
  have c: "\<forall>d\<in>set (complete_chunks (concat qs)). kv (drv_chunks drv1) (sha1_Sum d) = Some d"
  proof (cases "chunkSize \<le> length ?B")
    case True
    from st[OF True] show ?thesis
      by (simp add: q stream_chunks_def)
  next
    case False
    then show ?thesis
      by (simp add: q complete_chunks_short)
  qed
  have r: "remainder (concat qs) \<noteq> [] \<and> complete_chunks (concat qs) \<noteq> [] \<longrightarrow>
      kv (drv_chunks drv1) (sha1_Sum (remainder (concat qs))) = Some (remainder (concat qs))"
  proof (cases "chunkSize \<le> length ?B")
    case True
    from st[OF True] show ?thesis
      by (simp add: q stream_chunks_def)
  next
    case False
    then show ?thesis
      by (simp add: q complete_chunks_short)
  qed
  from session_holds[OF pc1 c r s2] have k: "kv (drv_chunks drv2) = kv (drv_chunks drv1)" .
  with st show ?thesis
    by simp
qed

lemma put_chunk_holds:
  assumes "kv (drv_chunks drv) (sha1_Sum d) = Some d" and "put_chunk drv d = (e, drv1)"
  shows "kv (drv_chunks drv1) = kv (drv_chunks drv)"
  using assms
  by (auto simp: put_chunk_def db_Get_def db_Put_def called_def fun_upd_idem
      split: option.splits if_splits prod.splits)

lemma writeChunks_holds:
  assumes "\<forall>d\<in>set ds. kv (drv_chunks drv) (sha1_Sum d) = Some d"
    and "writeChunks drv cl ds = (e, drv1, cl1)"
  shows "kv (drv_chunks drv1) = kv (drv_chunks drv)"
  using assms
proof (induction ds arbitrary: drv cl)
  case Nil
  then show ?case by simp
next
  case (Cons d ds)
  obtain r drv' where p: "put_chunk drv d = (r, drv')"
    by (cases "put_chunk drv d") auto
  from Cons.prems(1) have "kv (drv_chunks drv) (sha1_Sum d) = Some d"
    by simp
  from put_chunk_holds[OF this p] have k: "kv (drv_chunks drv') = kv (drv_chunks drv)" .
  show ?case
  proof (cases r)
    case (Some err)
    with Cons.prems(2) p k show ?thesis
      by auto
  next
    case None
    with Cons.prems(2) p have r: "writeChunks drv' (cl @ [sha1_Sum d]) ds = (e, drv1, cl1)"
      by simp
    from Cons.prems(1) k have "\<forall>d\<in>set ds. kv (drv_chunks drv') (sha1_Sum d) = Some d"
      by simp
    from Cons.IH[OF this r] k show ?thesis
      by simp
  qed
qed

lemma close'_holds:
  assumes p: "pnd \<noteq> [] \<and> cl \<noteq> [] \<longrightarrow> kv (drv_chunks drv) (sha1_Sum pnd) = Some pnd"
    and c: "close' drv ident cl pnd = (ce, drv2)"
  shows "kv (drv_chunks drv2) = kv (drv_chunks drv)"
proof (cases "pnd \<noteq> [] \<and> cl = []")
  case True
  with c show ?thesis
    by (auto simp: close'_def split: option.splits dest: put_record_result)
next
  case False
  let ?rest = "if pnd \<noteq> [] then [pnd] else []"
  obtain e1 drv1 cl1 where w: "writeChunks drv cl ?rest = (e1, drv1, cl1)"
    by (cases "writeChunks drv cl ?rest") auto
  from p False have "\<forall>d\<in>set ?rest. kv (drv_chunks drv) (sha1_Sum d) = Some d"
    by auto
  from writeChunks_holds[OF this w] have k: "kv (drv_chunks drv1) = kv (drv_chunks drv)" .
  have eq: "(if pnd \<noteq> [] then writeChunks drv cl [pnd] else (None, drv, cl)) = (e1, drv1, cl1)"
    using w by (cases "pnd = []") simp_all
  from c False k show ?thesis
    unfolding close'_def eq
    by (cases e1) (auto split: option.splits dest: put_record_result)
qed

lemma plan'_holds:
  assumes a: "\<forall>d\<in>set (complete_chunks B). kv (drv_chunks drv) (sha1_Sum d) = Some d"
    and r: "remainder B \<noteq> [] \<and> complete_chunks B \<noteq> [] \<longrightarrow>
              kv (drv_chunks drv) (sha1_Sum (remainder B)) = Some (remainder B)"
    and s: "plan' drv ident B = (we, ce, drv2)"
  shows "kv (drv_chunks drv2) = kv (drv_chunks drv)"
proof -
  obtain e1 drv1 cl where w: "writeChunks drv [] (complete_chunks B) = (e1, drv1, cl)"
    by (cases "writeChunks drv [] (complete_chunks B)") auto
  from writeChunks_holds[OF a w] have k1: "kv (drv_chunks drv1) = kv (drv_chunks drv)" .
  let ?pnd = "if e1 = None then remainder B else []"
  obtain ce' drv3 where c: "close' drv1 ident cl ?pnd = (ce', drv3)"
    by (cases "close' drv1 ident cl ?pnd") auto
  from s w c have d: "drv2 = drv3"
    by (simp add: plan'_def)
  from writeChunks_result[OF w] have "e1 = None \<longrightarrow> cl = map sha1_Sum (complete_chunks B)"
    by simp
  with r k1 have "?pnd \<noteq> [] \<and> cl \<noteq> [] \<longrightarrow> kv (drv_chunks drv1) (sha1_Sum ?pnd) = Some ?pnd"
    by auto
  from close'_holds[OF this c] d k1 show ?thesis
    by simp
qed

lemma session'_dedup:
  assumes i: "inj_on sha1_Sum (set (stream_chunks (concat ps)))"
    and a: "agrees (set (stream_chunks (concat ps))) (kv (drv_chunks drv))"
    and s1: "session' drv ident ps = Some (None, None, drv1)"
    and q: "concat qs = concat ps"
    and s2: "session' drv1 ident2 qs = Some (we, ce, drv2)"
  shows "kv (drv_chunks drv2) = kv (drv_chunks drv1)
         \<and> (chunkSize \<le> length (concat ps) \<longrightarrow>
              (\<forall>d\<in>set (stream_chunks (concat ps)). kv (drv_chunks drv2) (sha1_Sum d) = Some d))"
proof -
  let ?B = "concat ps"
  have st: "chunkSize \<le> length ?B \<Longrightarrow> \<forall>d\<in>set (stream_chunks ?B). kv (drv_chunks drv1) (sha1_Sum d) = Some d"
    using session'_stores[OF s1 _ a i] by simp
  have c: "\<forall>d\<in>set (complete_chunks ?B). kv (drv_chunks drv1) (sha1_Sum d) = Some d"
  proof (cases "chunkSize \<le> length ?B")
    case True
    from st[OF True] show ?thesis
      by (simp add: stream_chunks_def)
  next
    case False
    then show ?thesis
      by (simp add: complete_chunks_short)
  qed
  have r: "remainder ?B \<noteq> [] \<and> complete_chunks ?B \<noteq> [] \<longrightarrow>
      kv (drv_chunks drv1) (sha1_Sum (remainder ?B)) = Some (remainder ?B)"
  proof (cases "chunkSize \<le> length ?B")
    case True
    from st[OF True] show ?thesis
      by (simp add: stream_chunks_def)
  next
    case False
    then show ?thesis
      by (simp add: complete_chunks_short)
  qed
  from s2 have "plan' drv1 ident2 ?B = (we, ce, drv2)"
    by (simp add: session'_plan' q)
  from plan'_holds[OF c r this] have k: "kv (drv_chunks drv2) = kv (drv_chunks drv1)" .
  with st show ?thesis
    by simp
qed

lemma db_Get_found:
  "fst (db_Get d k) = (v, None) \<longleftrightarrow> outcome d = None \<and> kv d k = Some v"
  by (auto simp: db_Get_def split: option.splits)

subsection \<open>The put of the record\<close>

lemma Close_cases:
  assumes c: "Close drv pool f = (ce, drv3, pool3, f3)"
  shows "(ce \<noteq> None \<and> drv_files drv3 = drv_files drv)
     \<or> (\<exists>drv2 data. put_record drv2 (file_id f) data = (ce, drv3) \<and> drv_files drv2 = drv_files drv
          \<and> ((pending f \<noteq> [] \<and> chunks f = [] \<and> data = le32 0 @ pending f)
             \<or> (\<exists>drv1 f1 f2.
                  WriteChunks drv (f\<lparr>pending := []\<rparr>) (if pending f = [] then [] else [pending f])
                    = (None, drv1, f1)
                  \<and> flushBatch drv1 f1 = (None, drv2, f2)
                  \<and> chunk_record (chunks f1) = Some data)))"
proof (cases "pending f \<noteq> [] \<and> chunks f = []")
  case True
  obtain err drv1 where pr: "put_record drv (file_id f) (le32 0 @ pending f) = (err, drv1)"
    by (cases "put_record drv (file_id f) (le32 0 @ pending f)") auto
  from c True pr have "drv3 = drv1" "ce = err"
    unfolding Close_eq by simp_all
  with pr True show ?thesis
    by blast
next
  case False
  let ?rest = "if pending f = [] then [] else [pending f]"
  obtain e1 drv1 f1 where w: "WriteChunks drv (f\<lparr>pending := []\<rparr>) ?rest = (e1, drv1, f1)"
    by (cases "WriteChunks drv (f\<lparr>pending := []\<rparr>) ?rest") auto
  from WriteChunks_fields[OF w] have d1: "drv_files drv1 = drv_files drv" and i1: "file_id f1 = file_id f"
    by simp_all
  show ?thesis
  proof (cases e1)
    case (Some err)
    with c False w have "drv3 = drv1" "ce = Some err"
      unfolding Close_eq by simp_all
    with d1 show ?thesis by simp
  next
    case None
    obtain e2 drv2 f2 where fb: "flushBatch drv1 f1 = (e2, drv2, f2)"
      by (cases "flushBatch drv1 f1") auto
    from flushBatch_fields[OF fb] d1 i1 have d2: "drv_files drv2 = drv_files drv"
      and i2: "file_id f2 = file_id f" and c2: "chunks f2 = chunks f1"
      by simp_all
    show ?thesis
    proof (cases e2)
      case (Some err)
      with c False w None fb have "drv3 = drv2" "ce = Some err"
        unfolding Close_eq by simp_all
      with d2 show ?thesis by simp
    next
      case n2: None
      show ?thesis
      proof (cases "chunk_record (chunks f2)")
        case None
        with c False w \<open>e1 = None\<close> fb n2 have "drv3 = drv2" "ce = Some RuntimePanic"
          unfolding Close_eq by simp_all
        with d2 show ?thesis by simp
      next
        case (Some data)
        obtain err drv4 where pr: "put_record drv2 (file_id f2) data = (err, drv4)"
          by (cases "put_record drv2 (file_id f2) data") auto
        from c False w \<open>e1 = None\<close> fb n2 Some pr have "drv3 = drv4" "ce = err"
          unfolding Close_eq by simp_all
        with pr i2 have "put_record drv2 (file_id f) data = (ce, drv3)"
          by simp
        moreover from Some c2 have "chunk_record (chunks f1) = Some data"
          by simp
        ultimately show ?thesis
          using d2 w fb \<open>e1 = None\<close> n2 by blast
      qed
    qed
  qed
qed

lemma session_files:
  assumes pc: "pool_clean pool" and s: "session drv pool ident ps = (we, ce, drv3, pool3)"
  shows "(ce \<noteq> None \<and> drv_files drv3 = drv_files drv)
     \<or> (\<exists>drv2 data. put_record drv2 ident data = (ce, drv3) \<and> drv_files drv2 = drv_files drv)"
proof -
  let ?B = "concat ps"
  obtain e1 drv1 f1 where w: "WriteChunks drv (fresh_wfile ident) (complete_chunks ?B) = (e1, drv1, f1)"
    by (cases "WriteChunks drv (fresh_wfile ident) (complete_chunks ?B)") auto
  from WriteChunks_fields[OF w] have d1: "drv_files drv1 = drv_files drv" and i1: "file_id f1 = ident"
    by (simp_all add: fresh_wfile_def)
  define g where "g = (if e1 = None then f1\<lparr>pending := remainder ?B\<rparr> else f1)"
  obtain f3 where c: "Close drv1 (tl pool) g = (ce, drv3, pool3, f3)"
    using s w unfolding session_eq[OF pc] g_def
    by (cases e1) (auto split: prod.splits)
  have "file_id g = ident"
    using i1 by (simp add: g_def)
  with Close_cases[OF c] d1 show ?thesis
    by auto
qed

lemma session_put:
  assumes pc: "pool_clean pool" and s: "session drv pool ident ps = (None, ce, drv3, pool3)"
  shows "(ce \<noteq> None \<and> drv_files drv3 = drv_files drv)
     \<or> (\<exists>drv2 data. put_record drv2 ident data = (ce, drv3) \<and> drv_files drv2 = drv_files drv
          \<and> ((data = le32 0 @ concat ps \<and> length (concat ps) < chunkSize)
             \<or> (data = enc_chunks (map sha1_Sum (stream_chunks (concat ps)))
                \<and> (\<forall>c\<in>set (stream_chunks (concat ps)). kv (drv_chunks drv2) (sha1_Sum c) \<noteq> None))))"
proof -
  define B where "B = concat ps"
  let ?rest = "if remainder B = [] then [] else [remainder B]"
  obtain e1 drv1 f1 where w: "WriteChunks drv (fresh_wfile ident) (complete_chunks B) = (e1, drv1, f1)"
    by (cases "WriteChunks drv (fresh_wfile ident) (complete_chunks B)") auto
  from s w have e1: "e1 = None"
    unfolding session_eq[OF pc] B_def[symmetric] by (cases e1) (auto split: prod.splits)
  from WriteChunks_fields[OF w] have d1: "drv_files drv1 = drv_files drv" and i1: "file_id f1 = ident"
    and p1: "pending f1 = []"
    by (simp_all add: fresh_wfile_def)
  from WriteChunks_chunks[OF w] e1 have c1: "chunks f1 = map sha1_Sum (complete_chunks B)"
    by (simp add: fresh_wfile_def)
  define g where "g = f1\<lparr>pending := remainder B\<rparr>"
  from p1 have g: "pending g = remainder B" "chunks g = chunks f1" "g\<lparr>pending := []\<rparr> = f1"
    "file_id g = file_id f1"
    by (simp_all add: g_def)
  obtain f3 where c: "Close drv1 (tl pool) g = (ce, drv3, pool3, f3)"
    using s w e1 unfolding session_eq[OF pc] B_def[symmetric] g_def
    by (auto split: prod.splits)
  from Close_cases[OF c, unfolded g i1] d1
  consider (none) "ce \<noteq> None" "drv_files drv3 = drv_files drv"
    | (inline) drv2 data where "put_record drv2 ident data = (ce, drv3)" "drv_files drv2 = drv_files drv"
        "remainder B \<noteq> []" "chunks f1 = []" "data = le32 0 @ remainder B"
    | (chunked) drv2 data drv1' f1' f2 where "put_record drv2 ident data = (ce, drv3)"
        "drv_files drv2 = drv_files drv"
        "WriteChunks drv1 f1 ?rest = (None, drv1', f1')" "flushBatch drv1' f1' = (None, drv2, f2)"
        "chunk_record (chunks f1') = Some data"
    by auto
  then show ?thesis
  proof cases
    case none
    then show ?thesis by simp
  next
    case inline
    from inline(4) c1 have "complete_chunks B = []"
      by simp
    with complete_chunks_nonempty[of B] have sh: "length B < chunkSize"
      by (cases "chunkSize \<le> length B") simp_all
    with inline show ?thesis
      unfolding B_def[symmetric] by (auto simp: remainder_short)
  next
    case chunked
    have all: "WriteChunks drv (fresh_wfile ident) (stream_chunks B) = (None, drv1', f1')"
      unfolding stream_chunks_def WriteChunks_append using w chunked(3) e1 by simp
    from WriteChunks_chunks[OF all] have "chunks f1' = map sha1_Sum (stream_chunks B)"
      by (simp add: fresh_wfile_def)
    with chunked(5) have data: "data = enc_chunks (map sha1_Sum (stream_chunks B))"
      by (simp add: chunk_record_hashes)
    from WriteChunks_present[OF all] have "\<forall>c\<in>set (stream_chunks B). view f1' drv1' (sha1_Sum c) \<noteq> None"
      by simp
    with flushBatch_result[OF chunked(4)]
    have "\<forall>c\<in>set (stream_chunks B). kv (drv_chunks drv2) (sha1_Sum c) \<noteq> None"
      by simp
    with chunked(1,2) data show ?thesis
      unfolding B_def[symmetric] by blast
  qed
qed

lemma new_calls_same: "drv_files drv3 = drv_files drv \<Longrightarrow> new_calls (drv_files drv) (drv_files drv3) = []"
  by (simp add: new_calls_def)

lemma plan'_put:
  assumes s: "plan' drv ident B = (we, ce, drv2)"
  shows "(ce \<noteq> None \<and> drv_files drv2 = drv_files drv)
     \<or> (\<exists>drv1 data. put_record drv1 ident data = (ce, drv2) \<and> drv_files drv1 = drv_files drv
          \<and> ((data = le32 0 @ B \<and> length B < chunkSize)
             \<or> (\<exists>cl. data = enc_chunks cl \<and> (\<forall>h\<in>set cl. kv (drv_chunks drv1) h \<noteq> None))))"
proof (cases "length B < chunkSize")
  case True
  from s have "put_record drv ident (le32 0 @ B) = (ce, drv2)"
    unfolding plan'_short[OF True] by (auto split: prod.splits)
  with True show ?thesis
    by blast
next
  case False
  then have ge: "chunkSize \<le> length B" by simp
  let ?rest = "if remainder B = [] then [] else [remainder B]"
  obtain e1 drv1 cl where w: "writeChunks drv [] (complete_chunks B) = (e1, drv1, cl)"
    by (cases "writeChunks drv [] (complete_chunks B)") auto
  obtain e2 drv1' cl2 where w2: "writeChunks drv1 cl ?rest = (e2, drv1', cl2)"
    by (cases "writeChunks drv1 cl ?rest") auto
  from writeChunks_result[OF w] have d1: "drv_files drv1 = drv_files drv"
    by simp
  from writeChunks_result[OF w2] d1 have d2: "drv_files drv1' = drv_files drv"
    by simp
  from writeChunks_present[OF w] have p1: "\<forall>h\<in>set cl. kv (drv_chunks drv1) h \<noteq> None"
    by simp
  from writeChunks_present[OF w2 p1] have p2: "\<forall>h\<in>set cl2. kv (drv_chunks drv1') h \<noteq> None" .
  show ?thesis
  proof (cases e1)
    case (Some e)
    with s w have "put_record drv1 ident (enc_chunks cl) = (ce, drv2)"
      unfolding plan'_long[OF ge] by (auto split: prod.splits)
    with d1 p1 show ?thesis
      by blast
  next
    case None
    show ?thesis
    proof (cases e2)
      case (Some e)
      with s w w2 None have "ce = Some e" "drv2 = drv1'"
        unfolding plan'_long[OF ge] by (auto split: prod.splits)
      with d2 show ?thesis by simp
    next
      case n2: None
      with s w w2 None have "put_record drv1' ident (enc_chunks cl2) = (ce, drv2)"
        unfolding plan'_long[OF ge] by (auto split: prod.splits)
      with d2 p2 show ?thesis
        by blast
    qed
  qed
qed

lemma put_record_calls:
  assumes "put_record drv2 ident data = (ce, drv3)" and "drv_files drv2 = drv_files drv"
  shows "new_calls (drv_files drv) (drv_files drv3) = [CallPut (StringToBytes ident) data]"
    and "ce \<noteq> None \<longrightarrow> kv (drv_files drv3) = kv (drv_files drv)"
  using put_record_result[OF assms(1)] assms(2) by simp_all

lemma WriteChunks_zeros_enqueue:
  assumes "take n (script (drv_chunks drv)) = replicate n None"
    and "kv (drv_chunks drv) (sha1_Sum zero_chunk) = None"
    and "batchSize f + n * chunkSize < maxBatchSize"
  shows "\<exists>drv1. WriteChunks drv f (replicate n zero_chunk) =
           (None, drv1,
            f\<lparr>chunks := chunks f @ replicate n (sha1_Sum zero_chunk),
              batch := batch f @ replicate n (sha1_Sum zero_chunk, zero_chunk),
              batchSize := batchSize f + n * chunkSize\<rparr>)
         \<and> kv (drv_chunks drv1) = kv (drv_chunks drv)
         \<and> script (drv_chunks drv1) = drop n (script (drv_chunks drv))
         \<and> drv_files drv1 = drv_files drv"
  using assms
proof (induction n arbitrary: drv f)
  case 0
  then show ?case by simp
next
  case (Suc n)
  let ?h = "sha1_Sum zero_chunk"
  from Suc.prems(1) obtain rest where sc: "script (drv_chunks drv) = None # rest"
    and tk: "take n rest = replicate n None"
    by (cases "script (drv_chunks drv)") auto
  from sc have o: "outcome (drv_chunks drv) = None"
    by (simp add: outcome_def)
  let ?drv' = "drv\<lparr>drv_chunks := called (drv_chunks drv) (CallGet ?h)\<rparr>"
  let ?f' = "f\<lparr>chunks := chunks f @ [?h], batch := batch f @ [(?h, zero_chunk)],
      batchSize := batchSize f + chunkSize\<rparr>"
  from Suc.prems(3) have "batchSize f + length zero_chunk < maxBatchSize"
    by (simp add: length_zero_chunk)
  from WriteChunk_enqueue[OF o Suc.prems(2) this]
  have w: "WriteChunk drv f zero_chunk = (None, ?drv', ?f')"
    by (simp add: length_zero_chunk)
  have tk': "take n (script (drv_chunks ?drv')) = replicate n None"
    using tk sc by (simp add: called_def)
  have nf': "kv (drv_chunks ?drv') ?h = None"
    using Suc.prems(2) by (simp add: called_def)
  have bs': "batchSize ?f' + n * chunkSize < maxBatchSize"
    using Suc.prems(3) by simp
  from Suc.IH[OF tk' nf' bs'] obtain drv1 where
    r: "WriteChunks ?drv' ?f' (replicate n zero_chunk) =
          (None, drv1,
           ?f'\<lparr>chunks := chunks ?f' @ replicate n ?h,
             batch := batch ?f' @ replicate n (?h, zero_chunk),
             batchSize := batchSize ?f' + n * chunkSize\<rparr>)"
    and k: "kv (drv_chunks drv1) = kv (drv_chunks ?drv')"
    and s: "script (drv_chunks drv1) = drop n (script (drv_chunks ?drv'))"
    and d: "drv_files drv1 = drv_files ?drv'"
    by blast
  have "WriteChunks drv f (replicate (Suc n) zero_chunk) =
      (None, drv1,
       f\<lparr>chunks := chunks f @ replicate (Suc n) ?h,
         batch := batch f @ replicate (Suc n) (?h, zero_chunk),
         batchSize := batchSize f + Suc n * chunkSize\<rparr>)"
    using r by (simp add: w add.assoc)
  moreover from k have "kv (drv_chunks drv1) = kv (drv_chunks drv)"
    by (simp add: called_def)
  moreover from s sc have "script (drv_chunks drv1) = drop (Suc n) (script (drv_chunks drv))"
    by (simp add: called_def)
  moreover from d have "drv_files drv1 = drv_files drv"
    by simp
  ultimately show ?case
    by blast
qed

lemma Close_flushed:
  assumes p: "pending f = []" and o: "outcome (drv_chunks drv) = None"
    and cr: "chunk_record (chunks f) = Some data"
  shows "\<exists>drv2 f2. Close drv pool f =
           (case put_record drv2 (file_id f) data of (ce, drv3) \<Rightarrow> (ce, drv3, f2 # pool, f2))
         \<and> drv_files drv2 = drv_files drv \<and> kv (drv_chunks drv2) = view f drv
         \<and> f2 = f\<lparr>batchSize := 0, batch := []\<rparr>"
proof -
  obtain e2 drv2 f2 where fb: "flushBatch drv f = (e2, drv2, f2)"
    by (cases "flushBatch drv f") auto
  from flushBatch_result[OF fb] o have e2: "e2 = None" and f2: "f2 = f\<lparr>batchSize := 0, batch := []\<rparr>"
    and d2: "drv_files drv2 = drv_files drv" and k2: "kv (drv_chunks drv2) = view f drv"
    by simp_all
  from f2 cr have cr2: "chunk_record (chunks f2) = Some data" and i2: "file_id f2 = file_id f"
    by simp_all
  from p have u: "f\<lparr>pending := []\<rparr> = f"
    by (cases f) simp
  have "Close drv pool f =
      (case put_record drv2 (file_id f) data of (ce, drv3) \<Rightarrow> (ce, drv3, f2 # pool, f2))"
    unfolding Close_eq p u by (simp add: fb e2 cr2 i2)
  with d2 k2 f2 show ?thesis
    by blast
qed

lemma one_chunk_then_put:
  assumes "drv_chunks drv = empty_db"
  shows "\<exists>drv2 pool3. session drv [] ident [zero_chunk] =
           (case put_record drv2 ident (enc_chunks [sha1_Sum zero_chunk]) of
              (ce, drv3) \<Rightarrow> (None, ce, drv3, pool3))
         \<and> drv_files drv2 = drv_files drv"
proof -
  let ?h = "sha1_Sum zero_chunk"
  define drv1 where "drv1 = drv\<lparr>drv_chunks := called (drv_chunks drv) (CallGet ?h)\<rparr>"
  define f1 where "f1 = \<lparr>file_id = ident, chunks = [?h], batch = [(?h, zero_chunk)],
      batchSize = chunkSize, pending = []\<rparr>"
  have "WriteChunk drv (fresh_wfile ident) zero_chunk = (None, drv1, f1)"
    using chunkSize_less_maxBatchSize
    by (subst WriteChunk_enqueue)
       (simp_all add: assms fresh_wfile_def length_zero_chunk drv1_def f1_def, simp_all add: empty_db_def)
  then have ws: "WriteChunks drv (fresh_wfile ident) (complete_chunks (concat [zero_chunk])) = (None, drv1, f1)"
    by (simp add: complete_chunks_zero_chunk)
  have o1: "outcome (drv_chunks drv1) = None"
    by (simp add: drv1_def assms outcome_def called_def empty_db_def)
  have cr: "chunk_record (chunks f1) = Some (enc_chunks [?h])"
    using chunk_record_hashes[of "[zero_chunk]"] by (simp add: f1_def)
  have p1: "pending f1 = []" and i1: "file_id f1 = ident"
    by (simp_all add: f1_def)
  then have u: "f1\<lparr>pending := []\<rparr> = f1"
    by (simp add: f1_def)
  from Close_flushed[OF p1 o1 cr, of "[]"] obtain drv2 f2 where
    c: "Close drv1 [] f1 =
          (case put_record drv2 ident (enc_chunks [?h]) of (ce, drv3) \<Rightarrow> (ce, drv3, [f2], f2))"
    and d2: "drv_files drv2 = drv_files drv1"
    unfolding i1 by blast
  have "session drv [] ident [zero_chunk] =
      (case put_record drv2 ident (enc_chunks [?h]) of (ce, drv3) \<Rightarrow> (None, ce, drv3, [f2]))"
    unfolding session_eq[OF pool_clean_Nil] ws
    by (simp add: remainder_zero_chunk u c split: prod.splits)
  with d2 show ?thesis
    unfolding drv1_def by auto
qed

lemma one_chunk_then_put':
  assumes "drv_chunks drv = empty_db"
  shows "\<exists>drv1. session' drv ident [zero_chunk] =
           Some (case put_record drv1 ident (enc_chunks [sha1_Sum zero_chunk]) of
                   (ce, drv2) \<Rightarrow> (None, ce, drv2))
         \<and> drv_files drv1 = drv_files drv"
proof -
  let ?h = "sha1_Sum zero_chunk"
  obtain e1 drv1 where p: "put_chunk drv zero_chunk = (e1, drv1)"
    by (cases "put_chunk drv zero_chunk") auto
  from p have e1: "e1 = None"
    by (auto simp: put_chunk_def db_Get_def db_Put_def assms outcome_def called_def empty_db_def
        split: if_splits)
  from put_chunk_files[OF p] have d1: "drv_files drv1 = drv_files drv" .
  have ge: "chunkSize \<le> length zero_chunk"
    by (simp add: length_zero_chunk)
  have "plan' drv ident zero_chunk =
      (case put_record drv1 ident (enc_chunks [?h]) of (ce, drv2) \<Rightarrow> (None, ce, drv2))"
    unfolding plan'_long[OF ge] complete_chunks_zero_chunk remainder_zero_chunk
    by (simp add: p e1 split: prod.splits)
  with d1 show ?thesis
    by (auto simp: session'_plan')
qed

lemma replicate_16: "replicate 16 x = replicate 15 x @ [x]"
proof -
  have "replicate (Suc 15) x = replicate 15 x @ [x]"
    by (simp only: replicate_Suc replicate_append_same)
  then show ?thesis
    by simp
qed

lemma lost_chunks_session:
  "\<exists>drv2 pool3.
     session (empty_drv\<lparr>drv_chunks := empty_db\<lparr>script := replicate 16 None @ [Some e]\<rparr>\<rparr>) [] ident
         [replicate (16 * chunkSize) 0] =
       (case put_record drv2 ident (enc_chunks (replicate 16 (sha1_Sum zero_chunk))) of
          (ce, drv3) \<Rightarrow> (Some e, ce, drv3, pool3))
     \<and> drv_files drv2 = empty_db \<and> kv (drv_chunks drv2) = Map.empty"
proof -
  let ?h = "sha1_Sum zero_chunk"
  let ?D = "empty_drv\<lparr>drv_chunks := empty_db\<lparr>script := replicate 16 None @ [Some e]\<rparr>\<rparr>"
  have sD: "script (drv_chunks ?D) = replicate 16 None @ [Some e]"
    and kD: "kv (drv_chunks ?D) = Map.empty" and fD: "drv_files ?D = empty_db"
    by (simp_all add: empty_drv_def empty_db_def)
  have cc: "complete_chunks (concat [replicate (16 * chunkSize) 0]) = replicate 15 zero_chunk @ [zero_chunk]"
    using complete_chunks_replicate[of 16 "0 :: byte"]
    by (simp add: zero_chunk_def[symmetric] replicate_16)
  have t15: "take 15 (script (drv_chunks ?D)) = replicate 15 None"
    unfolding sD by simp
  have nf: "kv (drv_chunks ?D) ?h = None"
    unfolding kD by simp
  have b15: "batchSize (fresh_wfile ident) + 15 * chunkSize < maxBatchSize"
    by (simp add: fresh_wfile_def chunkSize_def maxBatchSize_def)
  define f15 where "f15 = \<lparr>file_id = ident, chunks = replicate 15 ?h,
      batch = replicate 15 (?h, zero_chunk), batchSize = 15 * chunkSize, pending = []\<rparr>"
  from WriteChunks_zeros_enqueue[OF t15 nf b15] obtain drv15 where
    w15: "WriteChunks ?D (fresh_wfile ident) (replicate 15 zero_chunk) = (None, drv15, f15)"
    and k15: "kv (drv_chunks drv15) = Map.empty"
    and s15: "script (drv_chunks drv15) = [None, Some e]"
    and d15: "drv_files drv15 = empty_db"
    unfolding sD kD fD f15_def by (auto simp: fresh_wfile_def)
  define drv16 where "drv16 = drv15\<lparr>drv_chunks :=
      called (called (drv_chunks drv15) (CallGet ?h)) (CallWrite (batch f15 @ [(?h, zero_chunk)]))\<rparr>"
  define f16 where "f16 = \<lparr>file_id = ident, chunks = replicate 15 ?h @ [?h],
      batch = [], batchSize = 0, pending = []\<rparr>"
  have o15: "outcome (drv_chunks drv15) = None"
    by (simp add: outcome_def s15)
  have n15: "kv (drv_chunks drv15) ?h = None"
    by (simp add: k15)
  have big: "maxBatchSize \<le> batchSize f15 + length zero_chunk"
    by (simp add: f15_def length_zero_chunk chunkSize_def maxBatchSize_def)
  have o15': "outcome (called (drv_chunks drv15) (CallGet ?h)) = Some e"
    by (simp add: outcome_def called_def s15)
  have w16: "WriteChunk drv15 f15 zero_chunk = (Some e, drv16, f16)"
    unfolding WriteChunk_flush_fails[OF o15 n15 big o15'] drv16_def f16_def
    by (simp add: f15_def)
  have ws: "WriteChunks ?D (fresh_wfile ident) (complete_chunks (concat [replicate (16 * chunkSize) 0]))
      = (Some e, drv16, f16)"
    unfolding cc WriteChunks_append w15 by (simp add: w16)
  have o16: "outcome (drv_chunks drv16) = None"
    by (simp add: drv16_def outcome_def called_def s15)
  have k16: "view f16 drv16 = Map.empty"
    by (simp add: view_def f16_def drv16_def called_def k15)
  have d16: "drv_files drv16 = empty_db"
    by (simp add: drv16_def d15)
  have cr: "chunk_record (chunks f16) = Some (enc_chunks (replicate 16 ?h))"
    using chunk_record_hashes[of "replicate 16 zero_chunk"]
    by (simp add: f16_def replicate_16[symmetric])
  have p16: "pending f16 = []" and i16: "file_id f16 = ident"
    by (simp_all add: f16_def)
  from Close_flushed[OF p16 o16 cr, of "[]"] obtain drv2 f2 where
    c: "Close drv16 [] f16 =
          (case put_record drv2 ident (enc_chunks (replicate 16 ?h)) of
             (ce, drv3) \<Rightarrow> (ce, drv3, [f2], f2))"
    and d2: "drv_files drv2 = drv_files drv16" and k2: "kv (drv_chunks drv2) = view f16 drv16"
    unfolding i16 by blast
  have "session ?D [] ident [replicate (16 * chunkSize) 0] =
      (case put_record drv2 ident (enc_chunks (replicate 16 ?h)) of
         (ce, drv3) \<Rightarrow> (Some e, ce, drv3, [f2]))"
    unfolding session_eq[OF pool_clean_Nil] ws
    by (simp add: c split: prod.splits)
  with d2 k2 d16 k16 show ?thesis
    by auto
qed

lemma one_chunk_after_failed_Get:
  assumes "script (drv_chunks drv) = [Some e]"
  shows "\<exists>drv2 pool3. session drv [] ident [zero_chunk] =
           (case put_record drv2 ident (enc_chunks [sha1_Sum zero_chunk]) of
              (ce, drv3) \<Rightarrow> (None, ce, drv3, pool3))
         \<and> drv_files drv2 = drv_files drv
         \<and> kv (drv_chunks drv2) = (kv (drv_chunks drv))(sha1_Sum zero_chunk \<mapsto> zero_chunk)"
proof -
  let ?h = "sha1_Sum zero_chunk"
  define drv1 where "drv1 = drv\<lparr>drv_chunks := called (drv_chunks drv) (CallGet ?h)\<rparr>"
  define f1 where "f1 = \<lparr>file_id = ident, chunks = [?h], batch = [(?h, zero_chunk)],
      batchSize = chunkSize, pending = []\<rparr>"
  from assms have o: "outcome (drv_chunks drv) = Some e"
    by (simp add: outcome_def)
  have "WriteChunk drv (fresh_wfile ident) zero_chunk = (None, drv1, f1)"
    unfolding WriteChunk_Get_error[OF o] using chunkSize_less_maxBatchSize
    by (simp add: Let_def fresh_wfile_def length_zero_chunk drv1_def f1_def)
  then have ws: "WriteChunks drv (fresh_wfile ident) (complete_chunks (concat [zero_chunk])) = (None, drv1, f1)"
    by (simp add: complete_chunks_zero_chunk)
  have o1: "outcome (drv_chunks drv1) = None"
    by (simp add: drv1_def assms outcome_def called_def)
  have cr: "chunk_record (chunks f1) = Some (enc_chunks [?h])"
    using chunk_record_hashes[of "[zero_chunk]"] by (simp add: f1_def)
  have p1: "pending f1 = []" and i1: "file_id f1 = ident"
    by (simp_all add: f1_def)
  then have u: "f1\<lparr>pending := []\<rparr> = f1"
    by (simp add: f1_def)
  have v1: "view f1 drv1 = (kv (drv_chunks drv))(?h \<mapsto> zero_chunk)"
    by (simp add: view_def f1_def drv1_def called_def apply_batch_def)
  from Close_flushed[OF p1 o1 cr, of "[]"] obtain drv2 f2 where
    c: "Close drv1 [] f1 =
          (case put_record drv2 ident (enc_chunks [?h]) of (ce, drv3) \<Rightarrow> (ce, drv3, [f2], f2))"
    and d2: "drv_files drv2 = drv_files drv1" and k2: "kv (drv_chunks drv2) = view f1 drv1"
    unfolding i1 by blast
  have "session drv [] ident [zero_chunk] =
      (case put_record drv2 ident (enc_chunks [?h]) of (ce, drv3) \<Rightarrow> (None, ce, drv3, [f2]))"
    unfolding session_eq[OF pool_clean_Nil] ws
    by (simp add: remainder_zero_chunk u c split: prod.splits)
  with d2 k2 v1 show ?thesis
    unfolding drv1_def by auto
qed

lemma WriteChunk_unknown:
  assumes "snd (fst (db_Get (drv_chunks drv) (sha1_Sum d))) = Some err"
  shows "WriteChunk drv f d =
     (if maxBatchSize \<le> batchSize f + length d
      then flushBatch (drv\<lparr>drv_chunks := called (drv_chunks drv) (CallGet (sha1_Sum d))\<rparr>)
             (f\<lparr>chunks := chunks f @ [sha1_Sum d], batch := batch f @ [(sha1_Sum d, d)],
                batchSize := batchSize f + length d\<rparr>)
      else (None, drv\<lparr>drv_chunks := called (drv_chunks drv) (CallGet (sha1_Sum d))\<rparr>,
            f\<lparr>chunks := chunks f @ [sha1_Sum d], batch := batch f @ [(sha1_Sum d, d)],
              batchSize := batchSize f + length d\<rparr>))"
  using assms
  by (auto simp: WriteChunk_def db_Get_def Let_def split: option.splits)

lemma writeChunk_unknown:
  assumes "offset g \<le> length (buf g)"
    and "snd (fst (db_Get (drv_chunks drv) (sha1_Sum (pend g)))) = Some err"
  shows "writeChunk drv g =
     (case db_Put (called (drv_chunks drv) (CallGet (sha1_Sum (pend g)))) (sha1_Sum (pend g))
             (pend g) of
        (perr, cdb) \<Rightarrow>
          (perr, drv\<lparr>drv_chunks := cdb\<rparr>,
           if perr = None then g\<lparr>offset := 0, chunks' := chunks' g @ [sha1_Sum (pend g)]\<rparr>
           else g\<lparr>offset := 0\<rparr>))"
  using assms unfolding pend_def
  by (auto simp: writeChunk_def db_Get_def Let_def split: option.splits prod.splits)

subsection \<open>When the record is put\<close>

text \<open>
  In every session the files space receives at most one call, a put under the session's
  identifier, and it is the last step of the close; when the close returns an error the
  files space holds what it held before. In the batching writer, when no write of the
  session returned an error, the record put is either the inline record of a content
  shorter than one chunk or the record of the hashes of all chunks of the content, and
  each of these hashes is a key of the chunk space in the state in which the put is
  made. In the inline writer this holds for every session, whatever the writes
  returned.
\<close>

lemma record_put_once_after_chunks:
  "(pool_clean pool \<and> session drv pool ident ps = (we, ce, drv3, pool3) \<longrightarrow>
      (new_calls (drv_files drv) (drv_files drv3) = []
         \<or> (\<exists>data. new_calls (drv_files drv) (drv_files drv3) = [CallPut (StringToBytes ident) data]))
      \<and> (ce \<noteq> None \<longrightarrow> kv (drv_files drv3) = kv (drv_files drv))
      \<and> (we = None \<and> new_calls (drv_files drv) (drv_files drv3) \<noteq> [] \<longrightarrow>
           (\<exists>drv2 data. put_record drv2 ident data = (ce, drv3)
              \<and> new_calls (drv_files drv) (drv_files drv3) = [CallPut (StringToBytes ident) data]
              \<and> ((data = le32 0 @ concat ps \<and> length (concat ps) < chunkSize)
                 \<or> (data = enc_chunks (map sha1_Sum (stream_chunks (concat ps)))
                    \<and> (\<forall>c\<in>set (stream_chunks (concat ps)).
                          kv (drv_chunks drv2) (sha1_Sum c) \<noteq> None))))))
   \<and> (session' drv ident ps = Some (we', ce', drv2') \<longrightarrow>
      (new_calls (drv_files drv) (drv_files drv2') = []
         \<or> (\<exists>data. new_calls (drv_files drv) (drv_files drv2') = [CallPut (StringToBytes ident) data]))
      \<and> (ce' \<noteq> None \<longrightarrow> kv (drv_files drv2') = kv (drv_files drv))
      \<and> (new_calls (drv_files drv) (drv_files drv2') \<noteq> [] \<longrightarrow>
           (\<exists>drv1 data. put_record drv1 ident data = (ce', drv2')
              \<and> new_calls (drv_files drv) (drv_files drv2') = [CallPut (StringToBytes ident) data]
              \<and> ((data = le32 0 @ concat ps \<and> length (concat ps) < chunkSize)
                 \<or> (\<exists>cl. data = enc_chunks cl
                      \<and> (\<forall>h\<in>set cl. kv (drv_chunks drv1) h \<noteq> None))))))"
proof (intro conjI impI)
  assume h: "pool_clean pool \<and> session drv pool ident ps = (we, ce, drv3, pool3)"
  then have pc: "pool_clean pool" and s: "session drv pool ident ps = (we, ce, drv3, pool3)"
    by simp_all
  from session_files[OF pc s] put_record_calls(1) new_calls_same
  show "new_calls (drv_files drv) (drv_files drv3) = []
      \<or> (\<exists>data. new_calls (drv_files drv) (drv_files drv3) = [CallPut (StringToBytes ident) data])"
    by metis
next
  assume h: "pool_clean pool \<and> session drv pool ident ps = (we, ce, drv3, pool3)" and e: "ce \<noteq> None"
  then have pc: "pool_clean pool" and s: "session drv pool ident ps = (we, ce, drv3, pool3)"
    by simp_all
  from session_files[OF pc s] put_record_calls(2) e
  show "kv (drv_files drv3) = kv (drv_files drv)"
    by metis
next
  assume h: "pool_clean pool \<and> session drv pool ident ps = (we, ce, drv3, pool3)"
    and n: "we = None \<and> new_calls (drv_files drv) (drv_files drv3) \<noteq> []"
  then have pc: "pool_clean pool" and s: "session drv pool ident ps = (None, ce, drv3, pool3)"
    by simp_all
  from session_put[OF pc s] n new_calls_same[of drv3 drv]
  obtain drv2 data where p: "put_record drv2 ident data = (ce, drv3)" "drv_files drv2 = drv_files drv"
    and d: "(data = le32 0 @ concat ps \<and> length (concat ps) < chunkSize)
         \<or> (data = enc_chunks (map sha1_Sum (stream_chunks (concat ps)))
            \<and> (\<forall>c\<in>set (stream_chunks (concat ps)). kv (drv_chunks drv2) (sha1_Sum c) \<noteq> None))"
    by auto
  from p d put_record_calls(1)[OF p]
  show "\<exists>drv2 data. put_record drv2 ident data = (ce, drv3)
      \<and> new_calls (drv_files drv) (drv_files drv3) = [CallPut (StringToBytes ident) data]
      \<and> ((data = le32 0 @ concat ps \<and> length (concat ps) < chunkSize)
         \<or> (data = enc_chunks (map sha1_Sum (stream_chunks (concat ps)))
            \<and> (\<forall>c\<in>set (stream_chunks (concat ps)). kv (drv_chunks drv2) (sha1_Sum c) \<noteq> None)))"
    by blast
next
  assume "session' drv ident ps = Some (we', ce', drv2')"
  then have s: "plan' drv ident (concat ps) = (we', ce', drv2')"
    by (simp add: session'_plan')
  from plan'_put[OF s] put_record_calls(1) new_calls_same
  show "new_calls (drv_files drv) (drv_files drv2') = []
      \<or> (\<exists>data. new_calls (drv_files drv) (drv_files drv2') = [CallPut (StringToBytes ident) data])"
    by metis
next
  assume "session' drv ident ps = Some (we', ce', drv2')" and e: "ce' \<noteq> None"
  then have s: "plan' drv ident (concat ps) = (we', ce', drv2')"
    by (simp add: session'_plan')
  from plan'_put[OF s] put_record_calls(2) e
  show "kv (drv_files drv2') = kv (drv_files drv)"
    by metis
next
  assume "session' drv ident ps = Some (we', ce', drv2')"
    and n: "new_calls (drv_files drv) (drv_files drv2') \<noteq> []"
  then have s: "plan' drv ident (concat ps) = (we', ce', drv2')"
    by (simp add: session'_plan')
  from plan'_put[OF s] n new_calls_same[of drv2' drv]
  obtain drv1 data where p: "put_record drv1 ident data = (ce', drv2')" "drv_files drv1 = drv_files drv"
    and d: "(data = le32 0 @ concat ps \<and> length (concat ps) < chunkSize)
         \<or> (\<exists>cl. data = enc_chunks cl \<and> (\<forall>h\<in>set cl. kv (drv_chunks drv1) h \<noteq> None))"
    by auto
  from p d put_record_calls(1)[OF p]
  show "\<exists>drv1 data. put_record drv1 ident data = (ce', drv2')
      \<and> new_calls (drv_files drv) (drv_files drv2') = [CallPut (StringToBytes ident) data]
      \<and> ((data = le32 0 @ concat ps \<and> length (concat ps) < chunkSize)
         \<or> (\<exists>cl. data = enc_chunks cl \<and> (\<forall>h\<in>set cl. kv (drv_chunks drv1) h \<noteq> None)))"
    by blast
qed
section \<open>The length field of a chunk entry\<close>

text \<open>
  C1 (as amended). In every File Index Record with chunkCount > 0 that a close has
  stored, after any sequence of writes, each entry's length field is 20: the byte length
  of the hash that follows it in the entry, not the length of the chunk's data.
\<close>

theorem entry_length_is_hash_length:
  "(pool_clean pool \<and> session drv pool ident ps = (we, None, drv2, pool2)
      \<and> file_record drv2 ident = Some data \<and> Uint32 data \<noteq> 0 \<and> i < unat (Uint32 data)
      \<longrightarrow> entry_length data i = 20 \<and> length (entry_hash data i) = 20)
   \<and> (session' drv ident ps = Some (we', None, drv2')
      \<and> file_record drv2' ident = Some data' \<and> Uint32 data' \<noteq> 0 \<and> i' < unat (Uint32 data')
      \<longrightarrow> entry_length data' i' = 20 \<and> length (entry_hash data' i') = 20)"
proof (intro conjI impI)
  assume a: "pool_clean pool \<and> session drv pool ident ps = (we, None, drv2, pool2)
      \<and> file_record drv2 ident = Some data \<and> Uint32 data \<noteq> 0 \<and> i < unat (Uint32 data)"
  with session_record[of pool drv ident ps we drv2 pool2]
  have "data = le32 0 @ concat ps \<or> (\<exists>xs. data = enc_chunks (map sha1_Sum xs))"
    by auto
  from record_entries[OF this] a
  show "entry_length data i = 20" and "length (entry_hash data i) = 20"
    by simp_all
next
  assume a: "session' drv ident ps = Some (we', None, drv2')
      \<and> file_record drv2' ident = Some data' \<and> Uint32 data' \<noteq> 0 \<and> i' < unat (Uint32 data')"
  then have "plan' drv ident (concat ps) = (we', None, drv2')"
    by (simp add: session'_plan')
  from plan'_record[OF this] a
  have "data' = le32 0 @ concat ps \<or> (\<exists>xs. data' = enc_chunks (map sha1_Sum xs))"
    by auto
  from record_entries[OF this] a
  show "entry_length data' i' = 20" and "length (entry_hash data' i') = 20"
    by simp_all
qed

theorem entry_length_is_hash_length_witness:
  "entry_length (the (file_record (after empty_drv [] ''a'' [zero_chunk]) ''a'')) 0 = 20
   \<and> entry_length (the (file_record (after' empty_drv ''a'' [zero_chunk]) ''a'')) 0 = 20"
proof -
  from one_chunk_session[of "''a''"] obtain drv3 pool3 where
    s: "session empty_drv [] ''a'' [zero_chunk] = (None, None, drv3, pool3)"
    and a: "after empty_drv [] ''a'' [zero_chunk] = drv3"
    and r: "file_record drv3 ''a'' = Some (enc_chunks [sha1_Sum zero_chunk])"
    by blast
  from one_chunk_session'[of "''a''"] obtain drv2 where
    s': "session' empty_drv ''a'' [zero_chunk] = Some (None, None, drv2)"
    and a': "after' empty_drv ''a'' [zero_chunk] = drv2"
    and r': "file_record drv2 ''a'' = Some (enc_chunks [sha1_Sum zero_chunk])"
    by blast
  have u: "Uint32 (enc_chunks [sha1_Sum zero_chunk]) = 1"
    by (simp add: Uint32_enc_chunks)
  from entry_length_is_hash_length[of "[]" empty_drv "''a''" "[zero_chunk]" None drv3 pool3
      "enc_chunks [sha1_Sum zero_chunk]" 0 None drv2 "enc_chunks [sha1_Sum zero_chunk]" 0]
  show ?thesis
    using s s' r r' by (simp add: a a' u pool_clean_Nil)
qed

theorem entry_length_not_chunk_length:
  "file_record (after empty_drv [] ''a'' [zero_chunk]) ''a'' = Some (enc_chunks [sha1_Sum zero_chunk])
   \<and> file_record (after' empty_drv ''a'' [zero_chunk]) ''a'' = Some (enc_chunks [sha1_Sum zero_chunk])
   \<and> entry_hash (enc_chunks [sha1_Sum zero_chunk]) 0 = sha1_Sum zero_chunk
   \<and> entry_length (enc_chunks [sha1_Sum zero_chunk]) 0 = 20
   \<and> kv (drv_chunks (after empty_drv [] ''a'' [zero_chunk])) (sha1_Sum zero_chunk) = Some zero_chunk
   \<and> kv (drv_chunks (after' empty_drv ''a'' [zero_chunk])) (sha1_Sum zero_chunk) = Some zero_chunk
   \<and> length zero_chunk = 262144"
proof -
  from one_chunk_session[of "''a''"] have
    "file_record (after empty_drv [] ''a'' [zero_chunk]) ''a'' = Some (enc_chunks [sha1_Sum zero_chunk])"
    "kv (drv_chunks (after empty_drv [] ''a'' [zero_chunk])) (sha1_Sum zero_chunk) = Some zero_chunk"
    by auto
  moreover from one_chunk_session'[of "''a''"] have
    "file_record (after' empty_drv ''a'' [zero_chunk]) ''a'' = Some (enc_chunks [sha1_Sum zero_chunk])"
    "kv (drv_chunks (after' empty_drv ''a'' [zero_chunk])) (sha1_Sum zero_chunk) = Some zero_chunk"
    by auto
  moreover have "entry_length (enc_chunks [sha1_Sum zero_chunk]) 0 = 20
      \<and> entry_hash (enc_chunks [sha1_Sum zero_chunk]) 0 = [sha1_Sum zero_chunk] ! 0"
    by (rule entry_of_enc) (simp_all add: length_sha1_Sum)
  moreover have "length zero_chunk = 262144"
    by (simp add: zero_chunk_def chunkSize_def)
  ultimately show ?thesis
    by simp
qed

section \<open>Round trip\<close>

text \<open>
  C2 (as amended). For every byte sequence written in any number of pieces: when the
  writes and the close return no error, the chunk space held, under the hash of each
  chunk of the sequence, nothing or that very chunk, no two different chunks of the
  sequence share a hash, and there are fewer than 2^32 chunks, then decoding the stored
  record and concatenating each referenced chunk whole (or taking the inline payload
  when chunkCount is 0) gives the sequence back. The length field of an entry is not
  the number of bytes to take: it is 20 in every entry.
\<close>

theorem roundtrip_whole_chunks:
  "(pool_clean pool \<and> session drv pool ident ps = (None, None, drv3, pool3)
      \<and> agrees (set (stream_chunks (concat ps))) (kv (drv_chunks drv))
      \<and> inj_on sha1_Sum (set (stream_chunks (concat ps)))
      \<and> length (stream_chunks (concat ps)) < 2 ^ 32
      \<longrightarrow> read_file_whole drv3 ident = Some (concat ps))
   \<and> (session' drv' ident ps = Some (None, None, drv2)
      \<and> agrees (set (stream_chunks (concat ps))) (kv (drv_chunks drv'))
      \<and> inj_on sha1_Sum (set (stream_chunks (concat ps)))
      \<and> length (stream_chunks (concat ps)) < 2 ^ 32
      \<longrightarrow> read_file_whole drv2 ident = Some (concat ps))"
  using roundtrip roundtrip' by blast

theorem roundtrip_whole_chunks_witness:
  "read_back_whole empty_drv [] ''a'' [zero_chunk] = Some zero_chunk
   \<and> read_back_whole' empty_drv ''a'' [zero_chunk] = Some zero_chunk"
proof -
  from one_chunk_session[of "''a''"] obtain drv3 pool3 where
    s: "session empty_drv [] ''a'' [zero_chunk] = (None, None, drv3, pool3)"
    by blast
  from one_chunk_session'[of "''a''"] obtain drv2 where
    s': "session' empty_drv ''a'' [zero_chunk] = Some (None, None, drv2)"
    by blast
  have a: "agrees (set (stream_chunks (concat [zero_chunk]))) (kv (drv_chunks empty_drv))"
    by (simp add: kv_empty_drv agrees_empty)
  have i: "inj_on sha1_Sum (set (stream_chunks (concat [zero_chunk])))"
    by (simp add: stream_chunks_zero_chunk)
  have n: "length (stream_chunks (concat [zero_chunk])) < 2 ^ 32"
    by (simp add: stream_chunks_zero_chunk)
  from roundtrip_whole_chunks[of "[]" empty_drv "''a''" "[zero_chunk]" drv3 pool3 empty_drv drv2]
    s s' a i n pool_clean_Nil
  have "read_file_whole drv3 ''a'' = Some zero_chunk" and "read_file_whole drv2 ''a'' = Some zero_chunk"
    by simp_all
  with s s' show ?thesis
    by (simp add: read_back_whole_def read_back_whole'_def)
qed

theorem roundtrip_first_length_bytes_fails:
  "read_back empty_drv [] ''a'' [zero_chunk] = Some (replicate 20 0)
   \<and> read_back' empty_drv ''a'' [zero_chunk] = Some (replicate 20 0)
   \<and> length zero_chunk = 262144"
proof -
  from one_chunk_session[of "''a''"] obtain drv3 pool3 where
    s: "session empty_drv [] ''a'' [zero_chunk] = (None, None, drv3, pool3)"
    and r: "file_record drv3 ''a'' = Some (enc_chunks (map sha1_Sum [zero_chunk]))"
    and k: "\<forall>d\<in>set [zero_chunk]. kv (drv_chunks drv3) (sha1_Sum d) = Some d"
    by auto
  from one_chunk_session'[of "''a''"] obtain drv2 where
    s': "session' empty_drv ''a'' [zero_chunk] = Some (None, None, drv2)"
    and r': "file_record drv2 ''a'' = Some (enc_chunks (map sha1_Sum [zero_chunk]))"
    and k': "\<forall>d\<in>set [zero_chunk]. kv (drv_chunks drv2) (sha1_Sum d) = Some d"
    by auto
  from read_file_first_bytes[OF r k] have "read_file drv3 ''a'' = Some (replicate 20 0)"
    by (simp add: take_20_zero_chunk)
  moreover from read_file_first_bytes[OF r' k'] have "read_file drv2 ''a'' = Some (replicate 20 0)"
    by (simp add: take_20_zero_chunk)
  moreover have "length zero_chunk = 262144"
    by (simp add: zero_chunk_def chunkSize_def)
  ultimately show ?thesis
    using s s' by (simp add: read_back_def read_back'_def)
qed

section \<open>The inlining boundary\<close>

text \<open>
  C3 (as amended). For every input written without error: if its size is strictly
  smaller than the chunk size, the stored record is the count 0 followed by the file
  bytes verbatim; if its size is at least the chunk size, the input has at least one
  chunk and the stored record's count is the number of chunks modulo 2^32. So the count
  is at least 1 exactly when the number of chunks is not a multiple of 2^32, and it is
  the number of chunks whenever there are fewer than 2^32 of them. The number of chunks
  is the size divided by the chunk size, rounded up.
\<close>

theorem inlining_boundary:
  "(pool_clean pool \<and> session drv pool ident ps = (None, None, drv3, pool3)
      \<and> length (concat ps) < chunkSize
      \<longrightarrow> file_record drv3 ident = Some (le32 0 @ concat ps) \<and> Uint32 (le32 0 @ concat ps) = 0)
   \<and> (pool_clean pool \<and> session drv pool ident ps = (None, None, drv3, pool3)
      \<and> chunkSize \<le> length (concat ps)
      \<longrightarrow> (\<exists>data. file_record drv3 ident = Some data
             \<and> 1 \<le> length (stream_chunks (concat ps))
             \<and> unat (Uint32 data) = length (stream_chunks (concat ps)) mod 2 ^ 32
             \<and> (1 \<le> Uint32 data) = (length (stream_chunks (concat ps)) mod 2 ^ 32 \<noteq> 0)
             \<and> (length (stream_chunks (concat ps)) < 2 ^ 32 \<longrightarrow>
                  1 \<le> Uint32 data \<and> unat (Uint32 data) = length (stream_chunks (concat ps)))))
   \<and> (session' drv' ident ps = Some (None, None, drv2) \<and> length (concat ps) < chunkSize
      \<longrightarrow> file_record drv2 ident = Some (le32 0 @ concat ps) \<and> Uint32 (le32 0 @ concat ps) = 0)
   \<and> (session' drv' ident ps = Some (None, None, drv2)
      \<and> chunkSize \<le> length (concat ps)
      \<longrightarrow> (\<exists>data. file_record drv2 ident = Some data
             \<and> 1 \<le> length (stream_chunks (concat ps))
             \<and> unat (Uint32 data) = length (stream_chunks (concat ps)) mod 2 ^ 32
             \<and> (1 \<le> Uint32 data) = (length (stream_chunks (concat ps)) mod 2 ^ 32 \<noteq> 0)
             \<and> (length (stream_chunks (concat ps)) < 2 ^ 32 \<longrightarrow>
                  1 \<le> Uint32 data \<and> unat (Uint32 data) = length (stream_chunks (concat ps)))))
   \<and> length (stream_chunks (concat ps))
       = length (concat ps) div chunkSize + (if length (concat ps) mod chunkSize = 0 then 0 else 1)"
proof -
  let ?n = "length (stream_chunks (concat ps))"
  let ?data = "enc_chunks (map sha1_Sum (stream_chunks (concat ps)))"
  have count: "1 \<le> ?n \<and> unat (Uint32 ?data) = ?n mod 2 ^ 32
      \<and> (1 \<le> Uint32 ?data) = (?n mod 2 ^ 32 \<noteq> 0)
      \<and> (?n < 2 ^ 32 \<longrightarrow> 1 \<le> Uint32 ?data \<and> unat (Uint32 ?data) = ?n)"
    if ge: "chunkSize \<le> length (concat ps)"
  proof -
    have pos: "1 \<le> ?n"
      using complete_chunks_nonempty[OF ge] by (simp add: stream_chunks_def Suc_leI)
    have u: "unat (Uint32 ?data) = ?n mod 2 ^ 32"
      by (simp add: Uint32_enc_chunks unat_of_nat)
    have "(1 \<le> Uint32 ?data) = (1 \<le> unat (Uint32 ?data))"
      by (simp add: word_le_nat_alt)
    also have "\<dots> = (?n mod 2 ^ 32 \<noteq> 0)"
      unfolding u by (simp add: Suc_le_eq)
    finally have c: "(1 \<le> Uint32 ?data) = (?n mod 2 ^ 32 \<noteq> 0)" .
    have "1 \<le> Uint32 ?data \<and> unat (Uint32 ?data) = ?n" if n: "?n < 2 ^ 32"
    proof -
      from n have m: "?n mod 2 ^ 32 = ?n"
        by simp
      with pos have "?n mod 2 ^ 32 \<noteq> 0"
        by (cases "stream_chunks (concat ps)") simp_all
      with c u m show ?thesis
        by simp
    qed
    with pos u c show ?thesis
      by blast
  qed
  show ?thesis
  proof (intro conjI impI; (elim conjE)?)
    assume "pool_clean pool" "session drv pool ident ps = (None, None, drv3, pool3)"
      "length (concat ps) < chunkSize"
    from session_short_record[OF this(1,3,2)]
    show "file_record drv3 ident = Some (le32 0 @ concat ps)"
      by simp
  next
    show "Uint32 (le32 0 @ concat ps) = 0" "Uint32 (le32 0 @ concat ps) = 0"
      by (simp_all add: Uint32_le32)
  next
    assume h: "pool_clean pool" "session drv pool ident ps = (None, None, drv3, pool3)"
      "chunkSize \<le> length (concat ps)"
    from chunked_record[OF h] count[OF h(3)]
    show "\<exists>data. file_record drv3 ident = Some data
             \<and> 1 \<le> ?n \<and> unat (Uint32 data) = ?n mod 2 ^ 32
             \<and> (1 \<le> Uint32 data) = (?n mod 2 ^ 32 \<noteq> 0)
             \<and> (?n < 2 ^ 32 \<longrightarrow> 1 \<le> Uint32 data \<and> unat (Uint32 data) = ?n)"
      by blast
  next
    assume "session' drv' ident ps = Some (None, None, drv2)" "length (concat ps) < chunkSize"
    from inline_roundtrip'[OF this]
    show "file_record drv2 ident = Some (le32 0 @ concat ps)" .
  next
    assume h: "session' drv' ident ps = Some (None, None, drv2)"
      "chunkSize \<le> length (concat ps)"
    from chunked_record'[OF h] count[OF h(2)]
    show "\<exists>data. file_record drv2 ident = Some data
             \<and> 1 \<le> ?n \<and> unat (Uint32 data) = ?n mod 2 ^ 32
             \<and> (1 \<le> Uint32 data) = (?n mod 2 ^ 32 \<noteq> 0)
             \<and> (?n < 2 ^ 32 \<longrightarrow> 1 \<le> Uint32 data \<and> unat (Uint32 data) = ?n)"
      by blast
  next
    show "?n = length (concat ps) div chunkSize + (if length (concat ps) mod chunkSize = 0 then 0 else 1)"
      by (rule length_stream_chunks)
  qed
qed

theorem inlining_boundary_witness:
  "file_record (after empty_drv [] ''a'' [[1, 2, 3]]) ''a'' = Some (le32 0 @ [1, 2, 3])
   \<and> file_record (after' empty_drv ''a'' [[1, 2, 3]]) ''a'' = Some (le32 0 @ [1, 2, 3])
   \<and> unat (Uint32 (the (file_record (after empty_drv [] ''a'' [zero_chunk]) ''a''))) = 1
   \<and> unat (Uint32 (the (file_record (after' empty_drv ''a'' [zero_chunk]) ''a''))) = 1"
proof -
  have small: "length (concat [[1, 2, 3 :: byte]]) < chunkSize"
    by (simp add: chunkSize_def)
  from small_session[of "[1, 2, 3]" "''a''"] small obtain drv3 pool3 where
    s: "session empty_drv [] ''a'' [[1, 2, 3]] = (None, None, drv3, pool3)"
    and a: "after empty_drv [] ''a'' [[1, 2, 3]] = drv3"
    by auto
  from small_session'[of "''a''" "[1, 2, 3]"] obtain drv2 where
    s': "session' empty_drv ''a'' [[1, 2, 3]] = Some (None, None, drv2)"
    and a': "after' empty_drv ''a'' [[1, 2, 3]] = drv2"
    by auto
  from one_chunk_session[of "''a''"] obtain drv3z pool3z where
    sz: "session empty_drv [] ''a'' [zero_chunk] = (None, None, drv3z, pool3z)"
    and az: "after empty_drv [] ''a'' [zero_chunk] = drv3z"
    by blast
  from one_chunk_session'[of "''a''"] obtain drv2z where
    sz': "session' empty_drv ''a'' [zero_chunk] = Some (None, None, drv2z)"
    and az': "after' empty_drv ''a'' [zero_chunk] = drv2z"
    by blast
  have big: "chunkSize \<le> length (concat [zero_chunk])"
    "length (stream_chunks (concat [zero_chunk])) < 2 ^ 32"
    "length (stream_chunks (concat [zero_chunk])) = 1"
    by (simp_all add: length_zero_chunk stream_chunks_zero_chunk)
  from inlining_boundary[of "[]" empty_drv "''a''" "[[1, 2, 3]]" drv3 pool3 empty_drv drv2]
    s s' small pool_clean_Nil
  have "file_record drv3 ''a'' = Some (le32 0 @ [1, 2, 3])"
    and "file_record drv2 ''a'' = Some (le32 0 @ [1, 2, 3])"
    by simp_all
  moreover
  note T = inlining_boundary[of "[]" empty_drv "''a''" "[zero_chunk]" drv3z pool3z empty_drv drv2z]
  from T[THEN conjunct2, THEN conjunct1, rule_format, OF conjI[OF pool_clean_Nil conjI[OF sz big(1)]]]
    big(2,3)
  have "unat (Uint32 (the (file_record drv3z ''a''))) = 1"
    by auto
  moreover
  from T[THEN conjunct2, THEN conjunct2, THEN conjunct2, THEN conjunct1, rule_format,
      OF conjI[OF sz' big(1)]] big(2,3)
  have "unat (Uint32 (the (file_record drv2z ''a''))) = 1"
    by auto
  ultimately show ?thesis
    by (simp add: a a' az az')
qed

theorem chunk_count_wraps:
  "fst (session empty_drv [] ''a'' [replicate (2 ^ 32 * chunkSize) 0]) = None
   \<and> fst (snd (session empty_drv [] ''a'' [replicate (2 ^ 32 * chunkSize) 0])) = None
   \<and> map_option Uint32 (file_record (after empty_drv [] ''a'' [replicate (2 ^ 32 * chunkSize) 0]) ''a'')
       = Some 0
   \<and> map_option fst (session' empty_drv ''a'' [replicate (2 ^ 32 * chunkSize) 0]) = Some None
   \<and> map_option Uint32 (file_record (after' empty_drv ''a'' [replicate (2 ^ 32 * chunkSize) 0]) ''a'')
       = Some 0
   \<and> chunkSize \<le> length (replicate (2 ^ 32 * chunkSize) (0 :: byte))"
proof -
  have u: "Uint32 (enc_chunks (replicate (2 ^ 32) (sha1_Sum zero_chunk))) = 0"
    by (simp add: Uint32_enc_chunks)
  from zeros_session[of "2 ^ 32" "''a''"] zeros_session'[of "2 ^ 32" "''a''"] u chunkSize_pos
  show ?thesis
    by auto
qed

section \<open>Hash collisions\<close>

text \<open>
  C4 (as amended). In the batching writer, for every chunk whose existence check is
  answered by the engine and finds, under the chunk's hash, a stored value of another
  length, \<^verbatim>\<open>WriteChunk\<close> returns the error made by
  \<^verbatim>\<open>errors.New("hash collision")\<close>; the chunk is neither queued nor put and the
  stored value stays; the write that delivered the chunk returns that error at once, so
  no further chunk is processed. When the existence check itself fails, the chunk is
  queued whatever is stored under its hash, without a collision error, and the batch
  then holds the new bytes for that hash, which a successful flush writes over the
  stored value. The inline writer compares no lengths: a chunk whose existence check
  finds its hash is taken as known whatever is stored under it, without an error and
  without overwriting it, and a chunk whose existence check fails is put whatever is
  stored under its hash.
\<close>

theorem hash_collision_aborts:
  "(outcome (drv_chunks drv) = None \<and> kv (drv_chunks drv) (sha1_Sum data) = Some v
      \<and> length v \<noteq> length data
      \<longrightarrow> WriteChunk drv f data =
            (Some (ErrorsNew ''hash collision''),
             drv\<lparr>drv_chunks := called (drv_chunks drv) (CallGet (sha1_Sum data))\<rparr>,
             f\<lparr>chunks := chunks f @ [sha1_Sum data]\<rparr>)
          \<and> kv (called (drv_chunks drv) (CallGet (sha1_Sum data))) = kv (drv_chunks drv))
   \<and> (length (pending f) < chunkSize \<and> chunkSize \<le> length (pending f) + length p
      \<and> WriteChunk drv (f\<lparr>pending := []\<rparr>) (take chunkSize (pending f @ p)) = (Some e, drv1, f1)
      \<longrightarrow> Chunker_Write drv f p = (Some e, drv1, f1))
   \<and> (outcome (drv_chunks drv) = None \<and> kv (drv_chunks drv) (sha1_Sum (pend g)) = Some v
      \<and> offset g \<le> length (buf g)
      \<longrightarrow> writeChunk drv g =
            (None, drv\<lparr>drv_chunks := called (drv_chunks drv) (CallGet (sha1_Sum (pend g)))\<rparr>,
             g\<lparr>offset := 0, chunks' := chunks' g @ [sha1_Sum (pend g)]\<rparr>))
   \<and> (outcome (drv_chunks drv) = Some e'
      \<longrightarrow> WriteChunk drv f data =
            (if maxBatchSize \<le> batchSize f + length data
             then flushBatch (drv\<lparr>drv_chunks := called (drv_chunks drv) (CallGet (sha1_Sum data))\<rparr>)
                    (f\<lparr>chunks := chunks f @ [sha1_Sum data],
                       batch := batch f @ [(sha1_Sum data, data)],
                       batchSize := batchSize f + length data\<rparr>)
             else (None, drv\<lparr>drv_chunks := called (drv_chunks drv) (CallGet (sha1_Sum data))\<rparr>,
                   f\<lparr>chunks := chunks f @ [sha1_Sum data],
                     batch := batch f @ [(sha1_Sum data, data)],
                     batchSize := batchSize f + length data\<rparr>))
          \<and> apply_batch (batch f @ [(sha1_Sum data, data)]) (kv (drv_chunks drv)) (sha1_Sum data)
              = Some data)
   \<and> (outcome (drv_chunks drv) = Some e' \<and> offset g \<le> length (buf g)
      \<longrightarrow> writeChunk drv g =
            (case db_Put (called (drv_chunks drv) (CallGet (sha1_Sum (pend g)))) (sha1_Sum (pend g))
                    (pend g) of
               (perr, cdb) \<Rightarrow>
                 (perr, drv\<lparr>drv_chunks := cdb\<rparr>,
                  if perr = None then g\<lparr>offset := 0, chunks' := chunks' g @ [sha1_Sum (pend g)]\<rparr>
                  else g\<lparr>offset := 0\<rparr>)))"
proof (intro conjI impI; (elim conjE)?)
  assume "outcome (drv_chunks drv) = None" "kv (drv_chunks drv) (sha1_Sum data) = Some v"
    "length v \<noteq> length data"
  then show "WriteChunk drv f data =
            (Some (ErrorsNew ''hash collision''),
             drv\<lparr>drv_chunks := called (drv_chunks drv) (CallGet (sha1_Sum data))\<rparr>,
             f\<lparr>chunks := chunks f @ [sha1_Sum data]\<rparr>)"
    by (rule WriteChunk_collision)
next
  show "kv (called (drv_chunks drv) (CallGet (sha1_Sum data))) = kv (drv_chunks drv)"
    by (simp add: called_def)
next
  assume "length (pending f) < chunkSize" "chunkSize \<le> length (pending f) + length p"
    "WriteChunk drv (f\<lparr>pending := []\<rparr>) (take chunkSize (pending f @ p)) = (Some e, drv1, f1)"
  then show "Chunker_Write drv f p = (Some e, drv1, f1)"
    by (rule Chunker_Write_abort)
next
  assume "outcome (drv_chunks drv) = None" "kv (drv_chunks drv) (sha1_Sum (pend g)) = Some v"
    "offset g \<le> length (buf g)"
  then show "writeChunk drv g =
            (None, drv\<lparr>drv_chunks := called (drv_chunks drv) (CallGet (sha1_Sum (pend g)))\<rparr>,
             g\<lparr>offset := 0, chunks' := chunks' g @ [sha1_Sum (pend g)]\<rparr>)"
    by (rule writeChunk_known)
next
  assume o: "outcome (drv_chunks drv) = Some e'"
  show "WriteChunk drv f data =
            (if maxBatchSize \<le> batchSize f + length data
             then flushBatch (drv\<lparr>drv_chunks := called (drv_chunks drv) (CallGet (sha1_Sum data))\<rparr>)
                    (f\<lparr>chunks := chunks f @ [sha1_Sum data],
                       batch := batch f @ [(sha1_Sum data, data)],
                       batchSize := batchSize f + length data\<rparr>)
             else (None, drv\<lparr>drv_chunks := called (drv_chunks drv) (CallGet (sha1_Sum data))\<rparr>,
                   f\<lparr>chunks := chunks f @ [sha1_Sum data],
                     batch := batch f @ [(sha1_Sum data, data)],
                     batchSize := batchSize f + length data\<rparr>))"
    unfolding WriteChunk_Get_error[OF o] by (simp add: Let_def)
next
  show "apply_batch (batch f @ [(sha1_Sum data, data)]) (kv (drv_chunks drv)) (sha1_Sum data)
      = Some data"
    by (simp add: apply_batch_snoc)
next
  assume o: "outcome (drv_chunks drv) = Some e'" and l: "offset g \<le> length (buf g)"
  show "writeChunk drv g =
            (case db_Put (called (drv_chunks drv) (CallGet (sha1_Sum (pend g)))) (sha1_Sum (pend g))
                    (pend g) of
               (perr, cdb) \<Rightarrow>
                 (perr, drv\<lparr>drv_chunks := cdb\<rparr>,
                  if perr = None then g\<lparr>offset := 0, chunks' := chunks' g @ [sha1_Sum (pend g)]\<rparr>
                  else g\<lparr>offset := 0\<rparr>))"
    unfolding writeChunk_Get_error[OF o l] pend_def by (simp add: Let_def)
qed

theorem hash_collision_aborts_witness:
  "fst (WriteChunk (empty_drv\<lparr>drv_chunks := seeded_db (sha1_Sum zero_chunk) []\<rparr>)
          (fresh_wfile ''a'') zero_chunk) = Some (ErrorsNew ''hash collision'')
   \<and> fst (Chunker_Write (empty_drv\<lparr>drv_chunks := seeded_db (sha1_Sum zero_chunk) []\<rparr>)
          (fresh_wfile ''a'') (zero_chunk @ zero_chunk)) = Some (ErrorsNew ''hash collision'')
   \<and> calls (drv_chunks (fst (snd (Chunker_Write
          (empty_drv\<lparr>drv_chunks := seeded_db (sha1_Sum zero_chunk) []\<rparr>)
          (fresh_wfile ''a'') (zero_chunk @ zero_chunk))))) = [CallGet (sha1_Sum zero_chunk)]
   \<and> fst (writeChunk (empty_drv\<lparr>drv_chunks := seeded_db (sha1_Sum zero_chunk) []\<rparr>)
          ((newWFile' ''a'')\<lparr>offset := chunkSize\<rparr>)) = None
   \<and> fst (WriteChunk
          (empty_drv\<lparr>drv_chunks := (seeded_db (sha1_Sum zero_chunk) [])\<lparr>script := [Some (EngineError ''io'')]\<rparr>\<rparr>)
          (fresh_wfile ''a'') zero_chunk) = None
   \<and> batch (snd (snd (WriteChunk
          (empty_drv\<lparr>drv_chunks := (seeded_db (sha1_Sum zero_chunk) [])\<lparr>script := [Some (EngineError ''io'')]\<rparr>\<rparr>)
          (fresh_wfile ''a'') zero_chunk))) = [(sha1_Sum zero_chunk, zero_chunk)]
   \<and> fst (writeChunk
          (empty_drv\<lparr>drv_chunks := (seeded_db (sha1_Sum zero_chunk) [])\<lparr>script := [Some (EngineError ''io'')]\<rparr>\<rparr>)
          ((newWFile' ''a'')\<lparr>offset := chunkSize\<rparr>)) = None"
proof -
  let ?D = "empty_drv\<lparr>drv_chunks := (seeded_db (sha1_Sum zero_chunk) [])\<lparr>script := [Some (EngineError ''io'')]\<rparr>\<rparr>"
  let ?drv = "empty_drv\<lparr>drv_chunks := seeded_db (sha1_Sum zero_chunk) []\<rparr>"
  let ?f = "fresh_wfile ''a''"
  let ?g = "(newWFile' ''a'')\<lparr>offset := chunkSize\<rparr>"
  let ?drv1 = "?drv\<lparr>drv_chunks := called (drv_chunks ?drv) (CallGet (sha1_Sum zero_chunk))\<rparr>"
  let ?f1 = "?f\<lparr>chunks := chunks ?f @ [sha1_Sum zero_chunk]\<rparr>"
  note T = hash_collision_aborts[of ?drv zero_chunk "[]" ?f "zero_chunk @ zero_chunk"
      "ErrorsNew ''hash collision''" ?drv1 ?f1 ?g]
  have pg: "pend ?g = zero_chunk"
    by (simp add: pend_def newWFile'_def zero_chunk_def)
  have h1: "outcome (drv_chunks ?drv) = None \<and> kv (drv_chunks ?drv) (sha1_Sum zero_chunk) = Some []
      \<and> length ([] :: bytes) \<noteq> length zero_chunk"
    using chunkSize_pos by (simp add: length_zero_chunk)
  from T[THEN conjunct1, rule_format, OF h1]
  have w1: "WriteChunk ?drv ?f zero_chunk = (Some (ErrorsNew ''hash collision''), ?drv1, ?f1)"
    by simp
  have t: "take chunkSize (pending ?f @ zero_chunk @ zero_chunk) = zero_chunk"
    by (simp add: fresh_wfile_def length_zero_chunk)
  have h2: "length (pending ?f) < chunkSize
      \<and> chunkSize \<le> length (pending ?f) + length (zero_chunk @ zero_chunk)
      \<and> WriteChunk ?drv (?f\<lparr>pending := []\<rparr>) (take chunkSize (pending ?f @ zero_chunk @ zero_chunk))
          = (Some (ErrorsNew ''hash collision''), ?drv1, ?f1)"
    unfolding t fresh_pending using w1 chunkSize_pos by (simp add: fresh_wfile_def length_zero_chunk)
  from T[THEN conjunct2, THEN conjunct1, rule_format, OF h2]
  have w2: "Chunker_Write ?drv ?f (zero_chunk @ zero_chunk)
              = (Some (ErrorsNew ''hash collision''), ?drv1, ?f1)" .
  have h3: "outcome (drv_chunks ?drv) = None \<and> kv (drv_chunks ?drv) (sha1_Sum (pend ?g)) = Some []
      \<and> offset ?g \<le> length (buf ?g)"
    by (simp add: pg) (simp add: newWFile'_def)
  from T[THEN conjunct2, THEN conjunct2, THEN conjunct1, rule_format, OF h3]
  have w3: "fst (writeChunk ?drv ?g) = None"
    by simp
  have oD: "outcome (drv_chunks ?D) = Some (EngineError ''io'')"
    by (simp add: outcome_def)
  note U = hash_collision_aborts[where drv = ?D and data = zero_chunk and f = ?f and g = ?g
      and e' = "EngineError ''io''"]
  from U[THEN conjunct2, THEN conjunct2, THEN conjunct2, THEN conjunct1, rule_format, OF oD,
      THEN conjunct1] chunkSize_less_maxBatchSize
  have w4: "WriteChunk ?D ?f zero_chunk =
      (None, ?D\<lparr>drv_chunks := called (drv_chunks ?D) (CallGet (sha1_Sum zero_chunk))\<rparr>,
       ?f\<lparr>chunks := chunks ?f @ [sha1_Sum zero_chunk],
         batch := batch ?f @ [(sha1_Sum zero_chunk, zero_chunk)],
         batchSize := batchSize ?f + length zero_chunk\<rparr>)"
    by (simp add: fresh_wfile_def length_zero_chunk)
  have h5: "outcome (drv_chunks ?D) = Some (EngineError ''io'') \<and> offset ?g \<le> length (buf ?g)"
    using oD by (simp add: newWFile'_def)
  from U[THEN conjunct2, THEN conjunct2, THEN conjunct2, THEN conjunct2, rule_format, OF h5]
  have w5: "fst (writeChunk ?D ?g) = None"
    by (simp add: db_Put_def outcome_def called_def split: prod.splits)
  have "fst (WriteChunk ?D ?f zero_chunk) = None"
    and "batch (snd (snd (WriteChunk ?D ?f zero_chunk))) = [(sha1_Sum zero_chunk, zero_chunk)]"
    unfolding w4 by (simp_all add: fresh_wfile_def)
  with w5 show ?thesis
    unfolding w2 using w1 w3 by (simp add: called_def seeded_db_def)
qed

theorem collision_accepted_or_overwritten:
  "map_option fst (session' (empty_drv\<lparr>drv_chunks := seeded_db (sha1_Sum zero_chunk) []\<rparr>)
      ''a'' [zero_chunk]) = Some None
   \<and> map_option (fst \<circ> snd) (session' (empty_drv\<lparr>drv_chunks := seeded_db (sha1_Sum zero_chunk) []\<rparr>)
      ''a'' [zero_chunk]) = Some None
   \<and> file_record (after' (empty_drv\<lparr>drv_chunks := seeded_db (sha1_Sum zero_chunk) []\<rparr>)
      ''a'' [zero_chunk]) ''a'' = Some (enc_chunks [sha1_Sum zero_chunk])
   \<and> kv (drv_chunks (after' (empty_drv\<lparr>drv_chunks := seeded_db (sha1_Sum zero_chunk) []\<rparr>)
      ''a'' [zero_chunk])) (sha1_Sum zero_chunk) = Some []
   \<and> length zero_chunk = 262144
   \<and> kv ((seeded_db (sha1_Sum zero_chunk) [])\<lparr>script := [Some (EngineError ''io'')]\<rparr>)
        (sha1_Sum zero_chunk) = Some []
   \<and> fst (session
        (empty_drv\<lparr>drv_chunks := (seeded_db (sha1_Sum zero_chunk) [])\<lparr>script := [Some (EngineError ''io'')]\<rparr>\<rparr>)
        [] ''a'' [zero_chunk]) = None
   \<and> fst (snd (session
        (empty_drv\<lparr>drv_chunks := (seeded_db (sha1_Sum zero_chunk) [])\<lparr>script := [Some (EngineError ''io'')]\<rparr>\<rparr>)
        [] ''a'' [zero_chunk])) = None
   \<and> kv (drv_chunks (after
        (empty_drv\<lparr>drv_chunks := (seeded_db (sha1_Sum zero_chunk) [])\<lparr>script := [Some (EngineError ''io'')]\<rparr>\<rparr>)
        [] ''a'' [zero_chunk])) (sha1_Sum zero_chunk) = Some zero_chunk"
proof -
  let ?h = "sha1_Sum zero_chunk"
  let ?drv = "empty_drv\<lparr>drv_chunks := seeded_db ?h []\<rparr>"
  let ?D = "empty_drv\<lparr>drv_chunks := (seeded_db ?h [])\<lparr>script := [Some (EngineError ''io'')]\<rparr>\<rparr>"
  have ge: "chunkSize \<le> length zero_chunk"
    by (simp add: length_zero_chunk)
  have c: "complete_chunks zero_chunk = [zero_chunk]" "remainder zero_chunk = []"
    using complete_chunks_replicate[of 1 0] remainder_replicate[of 1 "0 :: byte"]
    by (simp_all add: zero_chunk_def)
  have "plan' ?drv ''a'' zero_chunk =
      (None, None,
       \<lparr>drv_chunks = called (seeded_db ?h []) (CallGet ?h),
        drv_files = (called empty_db (CallPut (StringToBytes ''a'') (enc_chunks [?h])))
            \<lparr>kv := [StringToBytes ''a'' \<mapsto> enc_chunks [?h]]\<rparr>\<rparr>)"
    unfolding plan'_long[OF ge] c
    by (simp add: put_chunk_def db_Get_def put_record_def db_Put_def empty_drv_def)
       (simp add: empty_db_def)
  moreover have "length zero_chunk = 262144"
    by (simp add: zero_chunk_def chunkSize_def)
  ultimately have inline: "map_option fst (session' ?drv ''a'' [zero_chunk]) = Some None
      \<and> map_option (fst \<circ> snd) (session' ?drv ''a'' [zero_chunk]) = Some None
      \<and> file_record (after' ?drv ''a'' [zero_chunk]) ''a'' = Some (enc_chunks [?h])
      \<and> kv (drv_chunks (after' ?drv ''a'' [zero_chunk])) ?h = Some []
      \<and> length zero_chunk = 262144"
    by (simp add: session'_plan' after'_def file_record_def called_def seeded_db_def)
  have sD: "script (drv_chunks ?D) = [Some (EngineError ''io'')]"
    by simp
  from one_chunk_after_failed_Get[OF sD, of "''a''"] obtain drv2 pool3 where
    s0: "session ?D [] ''a'' [zero_chunk] =
           (case put_record drv2 ''a'' (enc_chunks [?h]) of (ce, drv3) \<Rightarrow> (None, ce, drv3, pool3))"
    and f2: "drv_files drv2 = drv_files ?D"
    and k2: "kv (drv_chunks drv2) = (kv (drv_chunks ?D))(?h \<mapsto> zero_chunk)"
    by blast
  obtain ce drv3 where pr: "put_record drv2 ''a'' (enc_chunks [?h]) = (ce, drv3)"
    by (cases "put_record drv2 ''a'' (enc_chunks [?h])") auto
  from put_record_result[OF pr] f2 have ce: "ce = None" and c3: "drv_chunks drv3 = drv_chunks drv2"
    by (simp_all add: empty_drv_def)
  from s0 pr ce have s: "session ?D [] ''a'' [zero_chunk] = (None, None, drv3, pool3)"
    by simp
  from c3 k2 have "kv (drv_chunks drv3) ?h = Some zero_chunk"
    by simp
  with s have batching: "fst (session ?D [] ''a'' [zero_chunk]) = None
      \<and> fst (snd (session ?D [] ''a'' [zero_chunk])) = None
      \<and> kv (drv_chunks (after ?D [] ''a'' [zero_chunk])) ?h = Some zero_chunk"
    by (simp add: after_def)
  have "kv ((seeded_db ?h [])\<lparr>script := [Some (EngineError ''io'')]\<rparr>) ?h = Some []"
    by simp
  with inline batching show ?thesis
    by (intro conjI) simp_all
qed

section \<open>The batch buffer's flush\<close>

text \<open>
  C6. After every invocation of \<^verbatim>\<open>flushBatch\<close>, whether the engine's batched write
  succeeds or fails, the pending batch is empty and the byte counter is zero; the error
  returned is the one the engine reported for that write (none when it succeeded), and
  the one call issued carries the batch as it was.
\<close>

theorem flushBatch_clears:
  "batch (snd (snd (flushBatch drv f))) = []
   \<and> batchSize (snd (snd (flushBatch drv f))) = 0
   \<and> fst (flushBatch drv f) = outcome (drv_chunks drv)
   \<and> calls (drv_chunks (fst (snd (flushBatch drv f))))
       = calls (drv_chunks drv) @ [CallWrite (batch f)]"
  by (simp add: flushBatch_def db_Write_def called_def split: prod.splits option.splits)

theorem flushBatch_clears_witness:
  "fst (flushBatch (empty_drv\<lparr>drv_chunks := failing_db (EngineError ''io'')\<rparr>)
          ((fresh_wfile ''a'')\<lparr>batch := [([1], [2])], batchSize := 1\<rparr>))
     = Some (EngineError ''io'')
   \<and> batch (snd (snd (flushBatch (empty_drv\<lparr>drv_chunks := failing_db (EngineError ''io'')\<rparr>)
          ((fresh_wfile ''a'')\<lparr>batch := [([1], [2])], batchSize := 1\<rparr>)))) = []
   \<and> batchSize (snd (snd (flushBatch (empty_drv\<lparr>drv_chunks := failing_db (EngineError ''io'')\<rparr>)
          ((fresh_wfile ''a'')\<lparr>batch := [([1], [2])], batchSize := 1\<rparr>)))) = 0"
  using flushBatch_clears [of "empty_drv\<lparr>drv_chunks := failing_db (EngineError ''io'')\<rparr>"
      "(fresh_wfile ''a'')\<lparr>batch := [([1], [2])], batchSize := 1\<rparr>"]
  by (simp add: outcome_def failing_db_def)

section \<open>Errors of the existence check\<close>

text \<open>
  C5 (as amended). An error of the existence-check \<^verbatim>\<open>Get\<close>, of any kind, is not
  returned to the caller: the chunk is taken as not yet stored. The batching writer
  queues it and returns only what a flush at the threshold returns; the inline writer
  puts it and returns the outcome of that put.
\<close>

theorem Get_error_taken_as_unknown:
  "(outcome (drv_chunks drv) = Some e \<longrightarrow>
      WriteChunk drv f data =
        (let h = sha1_Sum data;
             drv1 = drv\<lparr>drv_chunks := called (drv_chunks drv) (CallGet h)\<rparr>;
             f2 = f\<lparr>chunks := chunks f @ [h], batch := batch f @ [(h, data)],
                    batchSize := batchSize f + length data\<rparr>
         in if batchSize f2 \<ge> maxBatchSize then flushBatch drv1 f2 else (None, drv1, f2)))
   \<and> (outcome (drv_chunks drv) = Some e \<and> offset g \<le> length (buf g) \<longrightarrow>
      writeChunk drv g =
        (let data = take (offset g) (buf g);
             h = sha1_Sum data
         in case db_Put (called (drv_chunks drv) (CallGet h)) h data of
              (perr, cdb) \<Rightarrow>
                (perr, drv\<lparr>drv_chunks := cdb\<rparr>,
                 if perr = None then g\<lparr>offset := 0, chunks' := chunks' g @ [h]\<rparr>
                 else g\<lparr>offset := 0\<rparr>)))"
  using WriteChunk_Get_error writeChunk_Get_error by blast

theorem Get_error_taken_as_unknown_witness:
  "fst (WriteChunk (empty_drv\<lparr>drv_chunks := failing_db (EngineError ''corrupted'')\<rparr>)
          (fresh_wfile ''a'') [7, 7]) = None
   \<and> batch (snd (snd (WriteChunk (empty_drv\<lparr>drv_chunks := failing_db (EngineError ''corrupted'')\<rparr>)
          (fresh_wfile ''a'') [7, 7]))) = [(sha1_Sum [7, 7], [7, 7])]
   \<and> fst (writeChunk (empty_drv\<lparr>drv_chunks := failing_db (EngineError ''corrupted'')\<rparr>)
          ((newWFile' ''a'')\<lparr>offset := chunkSize\<rparr>)) = None
   \<and> chunks' (snd (snd (writeChunk (empty_drv\<lparr>drv_chunks := failing_db (EngineError ''corrupted'')\<rparr>)
          ((newWFile' ''a'')\<lparr>offset := chunkSize\<rparr>)))) = [sha1_Sum (replicate chunkSize 0)]"
  using Get_error_taken_as_unknown [of "empty_drv\<lparr>drv_chunks := failing_db (EngineError ''corrupted'')\<rparr>"
      "EngineError ''corrupted''" "fresh_wfile ''a''" "[7, 7]" "(newWFile' ''a'')\<lparr>offset := chunkSize\<rparr>"]
  by (simp add: Let_def fresh_wfile_def newWFile'_def db_Put_def called_def failing_db_def
      outcome_def maxBatchSize_def)

theorem Get_error_is_swallowed:
  "fst (session (empty_drv\<lparr>drv_chunks := failing_db (EngineError ''io'')\<rparr>) [] ''a'' [zero_chunk]) = None
   \<and> fst (snd (session (empty_drv\<lparr>drv_chunks := failing_db (EngineError ''io'')\<rparr>) [] ''a''
        [zero_chunk])) = None
   \<and> session' (empty_drv\<lparr>drv_chunks := failing_db (EngineError ''io'')\<rparr>) ''a'' [zero_chunk]
       = Some (None, None, after' (empty_drv\<lparr>drv_chunks := failing_db (EngineError ''io'')\<rparr>) ''a''
           [zero_chunk])
   \<and> take 1 (calls (drv_chunks (after' (empty_drv\<lparr>drv_chunks := failing_db (EngineError ''io'')\<rparr>)
        ''a'' [zero_chunk]))) = [CallGet (sha1_Sum zero_chunk)]
   \<and> outcome (failing_db (EngineError ''io'')) = Some (EngineError ''io'')"
proof -
  let ?drv = "empty_drv\<lparr>drv_chunks := failing_db (EngineError ''io'')\<rparr>"
  have ge: "chunkSize \<le> length zero_chunk"
    by (simp add: length_zero_chunk)
  have c: "complete_chunks zero_chunk = [zero_chunk]" "remainder zero_chunk = []"
    using complete_chunks_replicate[of 1 0] remainder_replicate[of 1 "0 :: byte"]
    by (simp_all add: zero_chunk_def)
  have o: "outcome (drv_chunks ?drv) = Some (EngineError ''io'')"
    by simp
  have cr: "chunk_record [sha1_Sum zero_chunk] = Some (enc_chunks [sha1_Sum zero_chunk])"
    using chunk_record_hashes[of "[zero_chunk]"] by simp
  let ?h = "sha1_Sum zero_chunk"
  let ?c1 = "called (failing_db (EngineError ''io'')) (CallGet ?h)"
  let ?drv1 = "empty_drv\<lparr>drv_chunks := ?c1\<rparr>"
  let ?f1 = "\<lparr>file_id = ''a'', chunks = [?h], batch = [(?h, zero_chunk)], batchSize = chunkSize,
      pending = []\<rparr>"
  let ?f2 = "\<lparr>file_id = ''a'', chunks = [?h], batch = [], batchSize = 0, pending = []\<rparr>"
  let ?c2 = "(called ?c1 (CallWrite [(?h, zero_chunk)]))\<lparr>kv := [?h \<mapsto> zero_chunk]\<rparr>"
  have w: "WriteChunk ?drv (fresh_wfile ''a'') zero_chunk = (None, ?drv1, ?f1)"
    using chunkSize_less_maxBatchSize
    by (simp add: WriteChunk_Get_error[OF o] Let_def length_zero_chunk fresh_wfile_def)
  have oc: "outcome ?c1 = None"
    by (simp add: outcome_def called_def failing_db_def)
  have fb: "flushBatch ?drv1 ?f1 = (None, empty_drv\<lparr>drv_chunks := ?c2\<rparr>, ?f2)"
    by (simp add: flushBatch_def db_Write_def oc apply_batch_def)
       (simp add: called_def failing_db_def)
  have pr: "put_record (empty_drv\<lparr>drv_chunks := ?c2\<rparr>) ''a'' (enc_chunks [?h]) =
      (None, empty_drv\<lparr>drv_chunks := ?c2,
          drv_files := (called empty_db (CallPut (StringToBytes ''a'') (enc_chunks [?h])))
            \<lparr>kv := [StringToBytes ''a'' \<mapsto> enc_chunks [?h]]\<rparr>\<rparr>)"
    by (simp add: put_record_def db_Put_def empty_drv_def) (simp add: empty_db_def)
  have cl: "Close ?drv1 [] ?f1 =
      (None, empty_drv\<lparr>drv_chunks := ?c2,
          drv_files := (called empty_db (CallPut (StringToBytes ''a'') (enc_chunks [?h])))
            \<lparr>kv := [StringToBytes ''a'' \<mapsto> enc_chunks [?h]]\<rparr>\<rparr>, [?f2], ?f2)"
    unfolding Close_eq by (simp add: fb cr pr)
  have "session ?drv [] ''a'' [zero_chunk] =
      (None, None, empty_drv\<lparr>drv_chunks := ?c2,
          drv_files := (called empty_db (CallPut (StringToBytes ''a'') (enc_chunks [?h])))
            \<lparr>kv := [StringToBytes ''a'' \<mapsto> enc_chunks [?h]]\<rparr>\<rparr>, [?f2])"
    unfolding session_eq[OF pool_clean_Nil] concat.simps append_Nil2 c
    by (simp add: w cl)
  moreover
  let ?d1 = "empty_drv\<lparr>drv_chunks := (called ?c1 (CallPut ?h zero_chunk))\<lparr>kv := [?h \<mapsto> zero_chunk]\<rparr>\<rparr>"
  have pc: "put_chunk ?drv zero_chunk = (None, ?d1)"
    by (simp add: put_chunk_def db_Get_def db_Put_def oc) (simp add: called_def failing_db_def)
  have "script (drv_files ?d1) = []"
    by (simp add: empty_drv_def empty_db_def)
  from put_record_reliable[OF this] obtain drv2 where
    pr': "put_record ?d1 ''a'' (enc_chunks [?h]) = (None, drv2)"
    by blast
  from put_record_result[OF pr'] have "drv_chunks drv2 = drv_chunks ?d1"
    by simp
  then have k: "take 1 (calls (drv_chunks drv2)) = [CallGet ?h]"
    by (simp add: called_def failing_db_def)
  have "plan' ?drv ''a'' zero_chunk = (None, None, drv2)"
    unfolding plan'_long[OF ge] c by (simp add: pc pr')
  ultimately show ?thesis
    using k by (simp add: session'_plan' after'_def)
qed

section \<open>Writing in pieces\<close>

text \<open>
  C9. For every byte sequence and every partition of it into pieces, writing the pieces
  one after the other and closing gives the same result as writing the whole sequence
  at once and closing, from the same state of the key spaces: the same errors and the
  same driver state, hence the same File Index Record, byte for byte. The session of
  the inline writer always returns.
\<close>

theorem rechunk_same_record:
  "session' drv ident ps = session' drv ident [concat ps]
   \<and> session' drv ident ps \<noteq> None
   \<and> session drv pool ident ps = session drv pool ident [concat ps]"
proof -
  obtain pool1 f where n: "newWFile pool ident = (pool1, f)"
    by (cases "newWFile pool ident") auto
  then have "pending f = []"
    by (auto simp: newWFile_def Chunker_Reset_def split: prod.splits option.splits)
  then have l: "length (pending f) < chunkSize"
    using chunkSize_pos by simp
  have "Writes drv f [concat ps] = Chunker_Write drv f (concat ps)"
    using Writes_concat[OF l, of drv "[concat ps]"] by simp
  with Writes_concat[OF l, of drv ps] have "Writes drv f ps = Writes drv f [concat ps]"
    by simp
  with n show ?thesis
    by (simp add: session'_plan' session_def)
qed

theorem rechunk_same_record_witness:
  "session' empty_drv ''a'' [[1], [2, 3]] = session' empty_drv ''a'' [[1, 2, 3]]
   \<and> session empty_drv [] ''a'' [[1], [2, 3]] = session empty_drv [] ''a'' [[1, 2, 3]]"
  using rechunk_same_record[of empty_drv "''a''" "[[1], [2, 3]]" "[]"] by simp

section \<open>Recycled sessions\<close>

text \<open>
  C10. Whatever clients have done with the pool (sessions acquired, written to and
  closed in any order, against any engine), every session in the pool holds an empty
  pending batch and a zero byte counter, and the session that \<^verbatim>\<open>newWFile\<close> hands
  out is the freshly constructed one: empty chunk list, empty accumulation, empty batch,
  counter zero. So a recycled writer behaves as a new one in every later write and
  close.
\<close>

theorem recycled_session_is_fresh:
  "run drv ops = (drv1, pool, act) \<longrightarrow>
     pool_clean pool
     \<and> snd (newWFile pool ident) = fresh_wfile ident
     \<and> snd (newWFile pool ident) = snd (newWFile [] ident)"
proof
  assume r: "run drv ops = (drv1, pool, act)"
  with run_pool_inv[of drv ops] have pc: "pool_clean pool"
    by (simp add: pool_inv_def)
  from newWFile_clean[OF pc, of ident] newWFile_clean[OF pool_clean_Nil, of ident] pc
  show "pool_clean pool \<and> snd (newWFile pool ident) = fresh_wfile ident
      \<and> snd (newWFile pool ident) = snd (newWFile [] ident)"
    by simp
qed

theorem recycled_session_is_fresh_witness:
  "fst (snd (run empty_drv [Acquire ''a'', WriteAt 0 zero_chunk, CloseAt 0]))
     = [\<lparr>file_id = ''a'', chunks = [sha1_Sum zero_chunk], batch = [], batchSize = 0, pending = []\<rparr>]
   \<and> snd (newWFile (fst (snd (run empty_drv [Acquire ''a'', WriteAt 0 zero_chunk, CloseAt 0]))) ''b'')
     = fresh_wfile ''b''"
proof -
  obtain drv1 pool act where
    r: "run empty_drv [Acquire ''a'', WriteAt 0 zero_chunk, CloseAt 0] = (drv1, pool, act)"
    by (cases "run empty_drv [Acquire ''a'', WriteAt 0 zero_chunk, CloseAt 0]") auto
  from recycled_session_is_fresh[of empty_drv "[Acquire ''a'', WriteAt 0 zero_chunk, CloseAt 0]"
      drv1 pool act "''b''"] r
  have "snd (newWFile pool ''b'') = fresh_wfile ''b''"
    by simp
  with r one_chunk_pool[of "''a''"] show ?thesis
    by simp
qed

section \<open>The chunk list and deduplication\<close>

text \<open>
  C7 (as amended). The batching writer appends the hash of every chunk handed to
  \<^verbatim>\<open>WriteChunk\<close> to the session's chunk list, on every path; the inline writer
  appends it exactly when \<^verbatim>\<open>writeChunk\<close> returns no error, whether the chunk was
  found or had to be put, and not when the put of the chunk fails. A chunk whose
  existence check returns a stored value (of the chunk's length, for the batching
  writer) is neither enqueued nor put: the only call made to the chunk space is that
  check, and the batch and its byte counter are unchanged. A chunk whose existence check
  returns an error, be it not-found or an engine error on a chunk that is stored, is
  enqueued with its bytes (and the batch flushed at the threshold), respectively put.
  When no two different chunks of a content share a hash, the chunk space held under
  the hash of each of them nothing or that very chunk, and a first session stored the
  content without error, a second session writing the same content, under any
  identifier, in any pieces and whatever the engine answers, leaves the chunk space
  exactly as it was: one entry per distinct chunk hash, holding the chunk.
\<close>

theorem chunk_list_and_dedup:
  "chunks (snd (snd (WriteChunk drv f d))) = chunks f @ [sha1_Sum d]
   \<and> (offset g \<le> length (buf g) \<longrightarrow>
        chunks' (snd (snd (writeChunk drv g)))
          = (if fst (writeChunk drv g) = None then chunks' g @ [sha1_Sum (pend g)] else chunks' g))
   \<and> (fst (db_Get (drv_chunks drv) (sha1_Sum d)) = (v, None) \<and> length v = length d \<longrightarrow>
        WriteChunk drv f d =
          (None, drv\<lparr>drv_chunks := called (drv_chunks drv) (CallGet (sha1_Sum d))\<rparr>,
           f\<lparr>chunks := chunks f @ [sha1_Sum d]\<rparr>))
   \<and> (offset g \<le> length (buf g) \<and> fst (db_Get (drv_chunks drv) (sha1_Sum (pend g))) = (v', None) \<longrightarrow>
        writeChunk drv g =
          (None, drv\<lparr>drv_chunks := called (drv_chunks drv) (CallGet (sha1_Sum (pend g)))\<rparr>,
           g\<lparr>offset := 0, chunks' := chunks' g @ [sha1_Sum (pend g)]\<rparr>))
   \<and> (snd (fst (db_Get (drv_chunks drv) (sha1_Sum d))) = Some err \<longrightarrow>
        WriteChunk drv f d =
          (if maxBatchSize \<le> batchSize f + length d
           then flushBatch (drv\<lparr>drv_chunks := called (drv_chunks drv) (CallGet (sha1_Sum d))\<rparr>)
                  (f\<lparr>chunks := chunks f @ [sha1_Sum d], batch := batch f @ [(sha1_Sum d, d)],
                     batchSize := batchSize f + length d\<rparr>)
           else (None, drv\<lparr>drv_chunks := called (drv_chunks drv) (CallGet (sha1_Sum d))\<rparr>,
                 f\<lparr>chunks := chunks f @ [sha1_Sum d], batch := batch f @ [(sha1_Sum d, d)],
                   batchSize := batchSize f + length d\<rparr>)))
   \<and> (offset g \<le> length (buf g)
        \<and> snd (fst (db_Get (drv_chunks drv) (sha1_Sum (pend g)))) = Some err \<longrightarrow>
        writeChunk drv g =
          (case db_Put (called (drv_chunks drv) (CallGet (sha1_Sum (pend g)))) (sha1_Sum (pend g))
                  (pend g) of
             (perr, cdb) \<Rightarrow>
               (perr, drv\<lparr>drv_chunks := cdb\<rparr>,
                if perr = None then g\<lparr>offset := 0, chunks' := chunks' g @ [sha1_Sum (pend g)]\<rparr>
                else g\<lparr>offset := 0\<rparr>)))
   \<and> (pool_clean pool \<and> inj_on sha1_Sum (set (stream_chunks (concat ps)))
        \<and> agrees (set (stream_chunks (concat ps))) (kv (drv_chunks drv0))
        \<and> session drv0 pool ident ps = (None, None, drv1, pool1)
        \<and> concat qs = concat ps
        \<and> session drv1 pool1 ident2 qs = (we, ce, drv2, pool2) \<longrightarrow>
        kv (drv_chunks drv2) = kv (drv_chunks drv1)
        \<and> (chunkSize \<le> length (concat ps) \<longrightarrow>
             (\<forall>c\<in>set (stream_chunks (concat ps)). kv (drv_chunks drv2) (sha1_Sum c) = Some c)))
   \<and> (inj_on sha1_Sum (set (stream_chunks (concat ps)))
        \<and> agrees (set (stream_chunks (concat ps))) (kv (drv_chunks drv0))
        \<and> session' drv0 ident ps = Some (None, None, drv1')
        \<and> concat qs = concat ps
        \<and> session' drv1' ident2 qs = Some (we', ce', drv2') \<longrightarrow>
        kv (drv_chunks drv2') = kv (drv_chunks drv1')
        \<and> (chunkSize \<le> length (concat ps) \<longrightarrow>
             (\<forall>c\<in>set (stream_chunks (concat ps)). kv (drv_chunks drv2') (sha1_Sum c) = Some c)))"
proof -
  have a: "chunks (snd (snd (WriteChunk drv f d))) = chunks f @ [sha1_Sum d]"
    using WriteChunk_fields[of drv f d] by (cases "WriteChunk drv f d") simp
  have b: "offset g \<le> length (buf g) \<longrightarrow>
        chunks' (snd (snd (writeChunk drv g)))
          = (if fst (writeChunk drv g) = None then chunks' g @ [sha1_Sum (pend g)] else chunks' g)"
  proof
    assume h: "offset g \<le> length (buf g)"
    obtain r drv' where p: "put_chunk drv (pend g) = (r, drv')"
      by (cases "put_chunk drv (pend g)") auto
    show "chunks' (snd (snd (writeChunk drv g)))
          = (if fst (writeChunk drv g) = None then chunks' g @ [sha1_Sum (pend g)] else chunks' g)"
      unfolding writeChunk_put_chunk[OF h] p by (cases r) simp_all
  qed
  have c: "fst (db_Get (drv_chunks drv) (sha1_Sum d)) = (v, None) \<and> length v = length d \<longrightarrow>
        WriteChunk drv f d =
          (None, drv\<lparr>drv_chunks := called (drv_chunks drv) (CallGet (sha1_Sum d))\<rparr>,
           f\<lparr>chunks := chunks f @ [sha1_Sum d]\<rparr>)"
    using WriteChunk_known[of drv d v f] by (simp add: db_Get_found)
  have e: "offset g \<le> length (buf g) \<and> fst (db_Get (drv_chunks drv) (sha1_Sum (pend g))) = (v', None) \<longrightarrow>
        writeChunk drv g =
          (None, drv\<lparr>drv_chunks := called (drv_chunks drv) (CallGet (sha1_Sum (pend g)))\<rparr>,
           g\<lparr>offset := 0, chunks' := chunks' g @ [sha1_Sum (pend g)]\<rparr>)"
    using writeChunk_known[of drv g v'] by (simp add: db_Get_found)
  have u: "snd (fst (db_Get (drv_chunks drv) (sha1_Sum d))) = Some err \<longrightarrow>
        WriteChunk drv f d =
          (if maxBatchSize \<le> batchSize f + length d
           then flushBatch (drv\<lparr>drv_chunks := called (drv_chunks drv) (CallGet (sha1_Sum d))\<rparr>)
                  (f\<lparr>chunks := chunks f @ [sha1_Sum d], batch := batch f @ [(sha1_Sum d, d)],
                     batchSize := batchSize f + length d\<rparr>)
           else (None, drv\<lparr>drv_chunks := called (drv_chunks drv) (CallGet (sha1_Sum d))\<rparr>,
                 f\<lparr>chunks := chunks f @ [sha1_Sum d], batch := batch f @ [(sha1_Sum d, d)],
                   batchSize := batchSize f + length d\<rparr>))"
    by (rule impI) (rule WriteChunk_unknown)
  have u': "offset g \<le> length (buf g)
        \<and> snd (fst (db_Get (drv_chunks drv) (sha1_Sum (pend g)))) = Some err \<longrightarrow>
        writeChunk drv g =
          (case db_Put (called (drv_chunks drv) (CallGet (sha1_Sum (pend g)))) (sha1_Sum (pend g))
                  (pend g) of
             (perr, cdb) \<Rightarrow>
               (perr, drv\<lparr>drv_chunks := cdb\<rparr>,
                if perr = None then g\<lparr>offset := 0, chunks' := chunks' g @ [sha1_Sum (pend g)]\<rparr>
                else g\<lparr>offset := 0\<rparr>))"
    using writeChunk_unknown[of g drv err] by blast
  have s: "pool_clean pool \<and> inj_on sha1_Sum (set (stream_chunks (concat ps)))
        \<and> agrees (set (stream_chunks (concat ps))) (kv (drv_chunks drv0))
        \<and> session drv0 pool ident ps = (None, None, drv1, pool1)
        \<and> concat qs = concat ps
        \<and> session drv1 pool1 ident2 qs = (we, ce, drv2, pool2) \<longrightarrow>
        kv (drv_chunks drv2) = kv (drv_chunks drv1)
        \<and> (chunkSize \<le> length (concat ps) \<longrightarrow>
             (\<forall>c\<in>set (stream_chunks (concat ps)). kv (drv_chunks drv2) (sha1_Sum c) = Some c))"
    using session_dedup[of pool ps drv0 ident drv1 pool1 qs ident2 we ce drv2 pool2] by blast
  have s': "inj_on sha1_Sum (set (stream_chunks (concat ps)))
        \<and> agrees (set (stream_chunks (concat ps))) (kv (drv_chunks drv0))
        \<and> session' drv0 ident ps = Some (None, None, drv1')
        \<and> concat qs = concat ps
        \<and> session' drv1' ident2 qs = Some (we', ce', drv2') \<longrightarrow>
        kv (drv_chunks drv2') = kv (drv_chunks drv1')
        \<and> (chunkSize \<le> length (concat ps) \<longrightarrow>
             (\<forall>c\<in>set (stream_chunks (concat ps)). kv (drv_chunks drv2') (sha1_Sum c) = Some c))"
    using session'_dedup[of ps drv0 ident drv1' qs ident2 we' ce' drv2'] by blast
  from a b c e u u' s s' show ?thesis
    by (intro conjI)
qed

theorem chunk_list_and_dedup_witness:
  "WriteChunk (empty_drv\<lparr>drv_chunks := seeded_db (sha1_Sum zero_chunk) zero_chunk\<rparr>)
       (fresh_wfile ''b'') zero_chunk =
     (None,
      empty_drv\<lparr>drv_chunks :=
        called (seeded_db (sha1_Sum zero_chunk) zero_chunk) (CallGet (sha1_Sum zero_chunk))\<rparr>,
      (fresh_wfile ''b'')\<lparr>chunks := [sha1_Sum zero_chunk]\<rparr>)
   \<and> writeChunk (empty_drv\<lparr>drv_chunks := seeded_db (sha1_Sum zero_chunk) zero_chunk\<rparr>)
       ((newWFile' ''b'')\<lparr>offset := chunkSize\<rparr>) =
     (None,
      empty_drv\<lparr>drv_chunks :=
        called (seeded_db (sha1_Sum zero_chunk) zero_chunk) (CallGet (sha1_Sum zero_chunk))\<rparr>,
      (newWFile' ''b'')\<lparr>chunks' := [sha1_Sum zero_chunk]\<rparr>)
   \<and> kv (drv_chunks (after (after empty_drv [] ''a'' [zero_chunk])
           (snd (snd (snd (session empty_drv [] ''a'' [zero_chunk])))) ''b'' [[], zero_chunk]))
       = kv (drv_chunks (after empty_drv [] ''a'' [zero_chunk]))
   \<and> kv (drv_chunks (after' (after' empty_drv ''a'' [zero_chunk]) ''b'' [[], zero_chunk]))
       = kv (drv_chunks (after' empty_drv ''a'' [zero_chunk]))
   \<and> kv (drv_chunks (after' (after' empty_drv ''a'' [zero_chunk]) ''b'' [[], zero_chunk]))
       (sha1_Sum zero_chunk) = Some zero_chunk
   \<and> batch (snd (snd (WriteChunk empty_drv (fresh_wfile ''b'') zero_chunk)))
       = [(sha1_Sum zero_chunk, zero_chunk)]
   \<and> kv (drv_chunks (fst (snd (writeChunk empty_drv ((newWFile' ''b'')\<lparr>offset := chunkSize\<rparr>)))))
       (sha1_Sum zero_chunk) = Some zero_chunk
   \<and> chunks' (snd (snd (writeChunk empty_drv ((newWFile' ''b'')\<lparr>offset := chunkSize\<rparr>))))
       = [sha1_Sum zero_chunk]"
proof -
  let ?h = "sha1_Sum zero_chunk"
  let ?sd = "empty_drv\<lparr>drv_chunks := seeded_db ?h zero_chunk\<rparr>"
  let ?g = "(newWFile' ''b'')\<lparr>offset := chunkSize\<rparr>"
  from one_chunk_session[of "''a''"] obtain drv1 pool1 where
    s: "session empty_drv [] ''a'' [zero_chunk] = (None, None, drv1, pool1)"
    by blast
  from one_chunk_session'[of "''a''"] obtain drv1' where
    s': "session' empty_drv ''a'' [zero_chunk] = Some (None, None, drv1')"
    by blast
  obtain we ce drv2 pool2 where t: "session drv1 pool1 ''b'' [[], zero_chunk] = (we, ce, drv2, pool2)"
    by (cases "session drv1 pool1 ''b'' [[], zero_chunk]") auto
  from session'_plan'[of drv1' "''b''" "[[], zero_chunk]"] obtain we' ce' drv2' where
    t': "session' drv1' ''b'' [[], zero_chunk] = Some (we', ce', drv2')"
    by (cases "plan' drv1' ''b'' (concat [[], zero_chunk])") auto
  have pg: "pend ?g = zero_chunk"
    by (simp add: pend_def newWFile'_def zero_chunk_def)
  have og: "offset ?g \<le> length (buf ?g)"
    by (simp add: newWFile'_def)
  have gt: "fst (db_Get (drv_chunks ?sd) ?h) = (zero_chunk, None)"
    by (simp add: db_Get_found)
  have a: "agrees (set (stream_chunks (concat [zero_chunk]))) (kv (drv_chunks empty_drv))"
    by (simp add: kv_empty_drv agrees_empty)
  have i: "inj_on sha1_Sum (set (stream_chunks (concat [zero_chunk])))"
    by (simp add: stream_chunks_zero_chunk)
  have ge: "chunkSize \<le> length (concat [zero_chunk])"
    by (simp add: length_zero_chunk)
  note th = chunk_list_and_dedup[where drv = ?sd and f = "fresh_wfile ''b''" and d = zero_chunk
      and g = ?g and v = zero_chunk and v' = zero_chunk and pool = "[]" and ps = "[zero_chunk]"
      and ?drv0.0 = empty_drv and ident = "''a''" and ?drv1.0 = drv1 and ?pool1.0 = pool1
      and qs = "[[], zero_chunk]" and ?ident2.0 = "''b''" and we = we and ce = ce and ?drv2.0 = drv2
      and ?pool2.0 = pool2 and drv1' = drv1' and we' = we' and ce' = ce' and drv2' = drv2']
  have gt': "fst (db_Get (drv_chunks ?sd) (sha1_Sum (pend ?g))) = (zero_chunk, None)"
    unfolding pg by (simp add: db_Get_found)
  have cq: "concat [[], zero_chunk] = concat [zero_chunk]"
    by simp
  from th[THEN conjunct2, THEN conjunct2, THEN conjunct1, rule_format, OF conjI[OF gt refl]]
  have w1: "WriteChunk ?sd (fresh_wfile ''b'') zero_chunk =
      (None, ?sd\<lparr>drv_chunks := called (drv_chunks ?sd) (CallGet ?h)\<rparr>,
       (fresh_wfile ''b'')\<lparr>chunks := chunks (fresh_wfile ''b'') @ [?h]\<rparr>)" .
  from th[THEN conjunct2, THEN conjunct2, THEN conjunct2, THEN conjunct1, rule_format,
      OF conjI[OF og gt']]
  have w2: "writeChunk ?sd ?g =
      (None, ?sd\<lparr>drv_chunks := called (drv_chunks ?sd) (CallGet (sha1_Sum (pend ?g)))\<rparr>,
       ?g\<lparr>offset := 0, chunks' := chunks' ?g @ [sha1_Sum (pend ?g)]\<rparr>)" .
  have h5: "pool_clean [] \<and> inj_on sha1_Sum (set (stream_chunks (concat [zero_chunk])))
      \<and> agrees (set (stream_chunks (concat [zero_chunk]))) (kv (drv_chunks empty_drv))
      \<and> session empty_drv [] ''a'' [zero_chunk] = (None, None, drv1, pool1)
      \<and> concat [[], zero_chunk] = concat [zero_chunk]
      \<and> session drv1 pool1 ''b'' [[], zero_chunk] = (we, ce, drv2, pool2)"
    using pool_clean_Nil i a s cq t by (intro conjI)
  from th[THEN conjunct2, THEN conjunct2, THEN conjunct2, THEN conjunct2, THEN conjunct2,
      THEN conjunct2, THEN conjunct1, rule_format, OF h5]
  have d1: "kv (drv_chunks drv2) = kv (drv_chunks drv1)"
    by (rule conjunct1)
  have h6: "inj_on sha1_Sum (set (stream_chunks (concat [zero_chunk])))
      \<and> agrees (set (stream_chunks (concat [zero_chunk]))) (kv (drv_chunks empty_drv))
      \<and> session' empty_drv ''a'' [zero_chunk] = Some (None, None, drv1')
      \<and> concat [[], zero_chunk] = concat [zero_chunk]
      \<and> session' drv1' ''b'' [[], zero_chunk] = Some (we', ce', drv2')"
    using i a s' cq t' by (intro conjI)
  note c6 = th[THEN conjunct2, THEN conjunct2, THEN conjunct2, THEN conjunct2, THEN conjunct2,
      THEN conjunct2, THEN conjunct2, rule_format, OF h6]
  from c6 have d2: "kv (drv_chunks drv2') = kv (drv_chunks drv1')"
    by (rule conjunct1)
  from c6[THEN conjunct2] ge have d3: "kv (drv_chunks drv2') ?h = Some zero_chunk"
    by (simp add: stream_chunks_zero_chunk)
  have w1': "WriteChunk ?sd (fresh_wfile ''b'') zero_chunk =
      (None, empty_drv\<lparr>drv_chunks := called (seeded_db ?h zero_chunk) (CallGet ?h)\<rparr>,
       (fresh_wfile ''b'')\<lparr>chunks := [?h]\<rparr>)"
    unfolding w1 by (simp add: fresh_wfile_def)
  have w2': "writeChunk ?sd ?g =
      (None, empty_drv\<lparr>drv_chunks := called (seeded_db ?h zero_chunk) (CallGet ?h)\<rparr>,
       (newWFile' ''b'')\<lparr>chunks' := [?h]\<rparr>)"
    unfolding w2 pg by (simp add: newWFile'_def)
  note tu = chunk_list_and_dedup[where drv = empty_drv and f = "fresh_wfile ''b''"
      and d = zero_chunk and g = ?g and err = ErrNotFound]
  have nf: "snd (fst (db_Get (drv_chunks empty_drv) ?h)) = Some ErrNotFound"
    by (simp add: db_Get_def empty_drv_def) (simp add: empty_db_def)
  have nf': "snd (fst (db_Get (drv_chunks empty_drv) (sha1_Sum (pend ?g)))) = Some ErrNotFound"
    unfolding pg by (rule nf)
  from tu[THEN conjunct2, THEN conjunct2, THEN conjunct2, THEN conjunct2, THEN conjunct1,
      rule_format, OF nf] chunkSize_less_maxBatchSize
  have w3: "batch (snd (snd (WriteChunk empty_drv (fresh_wfile ''b'') zero_chunk))) = [(?h, zero_chunk)]"
    by (simp add: fresh_wfile_def length_zero_chunk)
  from tu[THEN conjunct2, THEN conjunct2, THEN conjunct2, THEN conjunct2, THEN conjunct2,
      THEN conjunct1, rule_format, OF conjI[OF og nf']]
  have w4: "kv (drv_chunks (fst (snd (writeChunk empty_drv ?g)))) ?h = Some zero_chunk"
    and w5: "chunks' (snd (snd (writeChunk empty_drv ?g))) = [?h]"
    unfolding pg
    by (simp_all add: db_Put_def outcome_def called_def empty_drv_def empty_db_def newWFile'_def)
  from w1' w2' d1 d2 d3 s s' t t' w3 w4 w5 show ?thesis
    by (simp add: after_def after'_def)
qed


theorem stored_chunk_requeued_or_hash_dropped:
  "kv ((seeded_db (sha1_Sum zero_chunk) zero_chunk)\<lparr>script := [Some (EngineError ''io'')]\<rparr>)
       (sha1_Sum zero_chunk) = Some zero_chunk
   \<and> fst (WriteChunk
        (empty_drv\<lparr>drv_chunks := (seeded_db (sha1_Sum zero_chunk) zero_chunk)\<lparr>script := [Some (EngineError ''io'')]\<rparr>\<rparr>)
        (fresh_wfile ''a'') zero_chunk) = None
   \<and> batch (snd (snd (WriteChunk
        (empty_drv\<lparr>drv_chunks := (seeded_db (sha1_Sum zero_chunk) zero_chunk)\<lparr>script := [Some (EngineError ''io'')]\<rparr>\<rparr>)
        (fresh_wfile ''a'') zero_chunk))) = [(sha1_Sum zero_chunk, zero_chunk)]
   \<and> calls (drv_chunks (fst (snd (writeChunk
        (empty_drv\<lparr>drv_chunks := (seeded_db (sha1_Sum zero_chunk) zero_chunk)\<lparr>script := [Some (EngineError ''io'')]\<rparr>\<rparr>)
        ((newWFile' ''a'')\<lparr>offset := chunkSize\<rparr>)))))
       = [CallGet (sha1_Sum zero_chunk), CallPut (sha1_Sum zero_chunk) zero_chunk]
   \<and> fst (writeChunk
        (empty_drv\<lparr>drv_chunks := empty_db\<lparr>script := [None, Some (EngineError ''io'')]\<rparr>\<rparr>)
        ((newWFile' ''a'')\<lparr>offset := chunkSize\<rparr>)) = Some (EngineError ''io'')
   \<and> chunks' (snd (snd (writeChunk
        (empty_drv\<lparr>drv_chunks := empty_db\<lparr>script := [None, Some (EngineError ''io'')]\<rparr>\<rparr>)
        ((newWFile' ''a'')\<lparr>offset := chunkSize\<rparr>)))) = []"
proof -
  let ?h = "sha1_Sum zero_chunk"
  let ?e = "EngineError ''io''"
  let ?D = "empty_drv\<lparr>drv_chunks := (seeded_db ?h zero_chunk)\<lparr>script := [Some ?e]\<rparr>\<rparr>"
  let ?D2 = "empty_drv\<lparr>drv_chunks := empty_db\<lparr>script := [None, Some ?e]\<rparr>\<rparr>"
  let ?g = "(newWFile' ''a'')\<lparr>offset := chunkSize\<rparr>"
  have pg: "pend ?g = zero_chunk"
    by (simp add: pend_def newWFile'_def zero_chunk_def)
  have og: "offset ?g \<le> length (buf ?g)"
    by (simp add: newWFile'_def)
  have oD: "outcome (drv_chunks ?D) = Some ?e"
    by (simp add: outcome_def)
  have k: "kv ((seeded_db ?h zero_chunk)\<lparr>script := [Some ?e]\<rparr>) ?h = Some zero_chunk"
    by simp
  have w: "fst (WriteChunk ?D (fresh_wfile ''a'') zero_chunk) = None"
    "batch (snd (snd (WriteChunk ?D (fresh_wfile ''a'') zero_chunk))) = [(?h, zero_chunk)]"
    unfolding WriteChunk_Get_error[OF oD] using chunkSize_less_maxBatchSize
    by (simp_all add: Let_def fresh_wfile_def length_zero_chunk)
  have gD: "snd (fst (db_Get (drv_chunks ?D) (sha1_Sum (pend ?g)))) = Some ?e"
    unfolding pg by (simp add: db_Get_def outcome_def)
  have c: "calls (drv_chunks (fst (snd (writeChunk ?D ?g)))) = [CallGet ?h, CallPut ?h zero_chunk]"
    unfolding writeChunk_unknown[OF og gD] pg
    by (simp add: db_Put_def outcome_def called_def seeded_db_def)
  have gD2: "snd (fst (db_Get (drv_chunks ?D2) (sha1_Sum (pend ?g)))) = Some ErrNotFound"
    unfolding pg by (simp add: db_Get_def outcome_def empty_db_def)
  have p: "fst (writeChunk ?D2 ?g) = Some ?e" "chunks' (snd (snd (writeChunk ?D2 ?g))) = []"
    unfolding writeChunk_unknown[OF og gD2] pg
    by (simp_all add: db_Put_def outcome_def called_def empty_db_def newWFile'_def)
  from k w c p show ?thesis
    by (intro conjI)
qed

section \<open>The record and a failed flush\<close>

text \<open>
  C8. The batching writer, at a session whose write fails in the flush at the batch
  threshold and which is then closed: the chunk space is empty and its engine answers
  sixteen existence checks and then fails the write of the batch; the session is given
  sixteen chunks of zero bytes in one write. The write returns the engine's error, the
  close returns no error and puts, as the only call on the files space, a record of
  sixteen entries under the identifier, and the chunk space holds nothing under the
  hash those entries reference: the record is put although its chunks were neither
  there before nor in a flush that succeeded.
\<close>

theorem record_references_lost_chunks:
  "fst (session (empty_drv\<lparr>drv_chunks := empty_db\<lparr>script := replicate 16 None @ [Some (EngineError ''io'')]\<rparr>\<rparr>)
          [] ''a'' [replicate (16 * chunkSize) 0]) = Some (EngineError ''io'')
   \<and> fst (snd (session (empty_drv\<lparr>drv_chunks := empty_db\<lparr>script := replicate 16 None @ [Some (EngineError ''io'')]\<rparr>\<rparr>)
          [] ''a'' [replicate (16 * chunkSize) 0])) = None
   \<and> file_record (after (empty_drv\<lparr>drv_chunks := empty_db\<lparr>script := replicate 16 None @ [Some (EngineError ''io'')]\<rparr>\<rparr>)
          [] ''a'' [replicate (16 * chunkSize) 0]) ''a''
       = Some (enc_chunks (replicate 16 (sha1_Sum zero_chunk)))
   \<and> kv (drv_chunks (after (empty_drv\<lparr>drv_chunks := empty_db\<lparr>script := replicate 16 None @ [Some (EngineError ''io'')]\<rparr>\<rparr>)
          [] ''a'' [replicate (16 * chunkSize) 0])) (sha1_Sum zero_chunk) = None
   \<and> new_calls empty_db
        (drv_files (after (empty_drv\<lparr>drv_chunks := empty_db\<lparr>script := replicate 16 None @ [Some (EngineError ''io'')]\<rparr>\<rparr>)
          [] ''a'' [replicate (16 * chunkSize) 0]))
       = [CallPut (StringToBytes ''a'') (enc_chunks (replicate 16 (sha1_Sum zero_chunk)))]
   \<and> complete_chunks (replicate (16 * chunkSize) 0) = replicate 16 zero_chunk"
proof -
  let ?e = "EngineError ''io''"
  let ?h = "sha1_Sum zero_chunk"
  let ?D = "empty_drv\<lparr>drv_chunks := empty_db\<lparr>script := replicate 16 None @ [Some ?e]\<rparr>\<rparr>"
  from lost_chunks_session[of ?e "''a''"] obtain drv2 pool3 where
    s0: "session ?D [] ''a'' [replicate (16 * chunkSize) 0] =
           (case put_record drv2 ''a'' (enc_chunks (replicate 16 ?h)) of
              (ce, drv3) \<Rightarrow> (Some ?e, ce, drv3, pool3))"
    and f2: "drv_files drv2 = empty_db" and k2: "kv (drv_chunks drv2) = Map.empty"
    by blast
  obtain ce drv3 where pr: "put_record drv2 ''a'' (enc_chunks (replicate 16 ?h)) = (ce, drv3)"
    by (cases "put_record drv2 ''a'' (enc_chunks (replicate 16 ?h))") auto
  from put_record_result[OF pr] f2 have ce: "ce = None"
    and c3: "drv_chunks drv3 = drv_chunks drv2"
    by simp_all
  with put_record_result[OF pr] have r3: "file_record drv3 ''a'' = Some (enc_chunks (replicate 16 ?h))"
    by simp
  from s0 pr ce have "session ?D [] ''a'' [replicate (16 * chunkSize) 0] = (Some ?e, None, drv3, pool3)"
    by simp
  moreover from put_record_calls(1)[OF pr refl] f2
  have "new_calls empty_db (drv_files drv3) = [CallPut (StringToBytes ''a'') (enc_chunks (replicate 16 ?h))]"
    by simp
  moreover have "complete_chunks (replicate (16 * chunkSize) 0) = replicate 16 zero_chunk"
    using complete_chunks_replicate[of 16 "0 :: byte"] by (simp add: zero_chunk_def)
  ultimately show ?thesis
    using r3 c3 k2 by (simp add: after_def)
qed

end
